theory Spec2Isabelle
  imports Complex_Main "HOL-Library.Word" "HOL-Library.Sublist"
begin

section \<open>Python strings\<close>

text \<open>
  A Python \<open>str\<close> is a sequence of Unicode code points. The substitution table of
  \<open>clean_value\<close> holds code points above U+00FF (the euro sign, a curly quote), so a
  string is modelled as a list of code points, each a natural number.
\<close>

type_synonym pystr = "nat list"

text \<open>\<open>str.isspace\<close> of one character: the code points CPython treats as whitespace.\<close>

definition isspace :: "nat \<Rightarrow> bool" where
  "isspace c \<longleftrightarrow>
     (0x09 \<le> c \<and> c \<le> 0x0D) \<or> (0x1C \<le> c \<and> c \<le> 0x20) \<or> c = 0x85 \<or> c = 0xA0 \<or>
     c = 0x1680 \<or> (0x2000 \<le> c \<and> c \<le> 0x200A) \<or> c = 0x2028 \<or> c = 0x2029 \<or>
     c = 0x202F \<or> c = 0x205F \<or> c = 0x3000"

text \<open>\<open>s.strip()\<close>: leading and trailing whitespace removed.\<close>

definition strip_py :: "pystr \<Rightarrow> pystr" where
  "strip_py s = rev (dropWhile isspace (rev (dropWhile isspace s)))"

text \<open>\<open>s.split(sep)\<close> for a one-character separator: always at least one field.\<close>

fun split_py :: "'a \<Rightarrow> 'a list \<Rightarrow> 'a list list" where
  "split_py sep [] = [[]]"
| "split_py sep (c # cs) =
     (if c = sep then [] # split_py sep cs
      else (case split_py sep cs of
              [] \<Rightarrow> [[c]]
            | f # fs \<Rightarrow> (c # f) # fs))"

text \<open>\<open>sep.join(xs)\<close>.\<close>

fun join_py :: "'a list \<Rightarrow> 'a list list \<Rightarrow> 'a list" where
  "join_py sep [] = []"
| "join_py sep [x] = x"
| "join_py sep (x # y # ys) = x @ sep @ join_py sep (y # ys)"

text \<open>
  \<open>s.replace(old, new)\<close>: every non-overlapping occurrence of \<open>old\<close>, found from the
  left, becomes \<open>new\<close>. With an empty \<open>old\<close> Python puts \<open>new\<close> before every character
  and at the end.
\<close>

function replace_py :: "'a list \<Rightarrow> 'a list \<Rightarrow> 'a list \<Rightarrow> 'a list" where
  "replace_py old new [] = (if old = [] then new else [])"
| "replace_py old new (c # cs) =
     (if old = [] then new @ c # replace_py old new cs
      else if prefix old (c # cs) then new @ replace_py old new (drop (length old) (c # cs))
      else c # replace_py old new cs)"
  by pat_completeness auto
termination
  by (relation "measure (\<lambda>(old, new, s). length s)") auto

section \<open>Value cleaning (\<open>TxtToSQLiteConverter.clean_value\<close>)\<close>

text \<open>
  A dict literal keeps one entry per key: a key written again keeps the place of its
  first occurrence and takes the value written last.
\<close>

fun dict_set :: "('k \<times> 'v) list \<Rightarrow> 'k \<Rightarrow> 'v \<Rightarrow> ('k \<times> 'v) list" where
  "dict_set [] k v = [(k, v)]"
| "dict_set ((k', v') # d) k v = (if k' = k then (k', v) # d else (k', v') # dict_set d k v)"

definition dict_literal :: "('k \<times> 'v) list \<Rightarrow> ('k \<times> 'v) list" where
  "dict_literal kvs = foldl (\<lambda>d (k, v). dict_set d k v) [] kvs"

text \<open>
  The table as the source file writes it, code point by code point. Seven entries
  share the one-character key U+00C3.
\<close>

definition replacements_literal :: "(pystr \<times> pystr) list" where
  "replacements_literal =
     [([0xC3, 0xA1], [0xE1]), ([0xC3, 0xA9], [0xE9]), ([0xC3, 0xAD], [0xED]),
      ([0xC3, 0xB3], [0xF3]), ([0xC3, 0xBA], [0xFA]),
      ([0xC3, 0xB1], [0xF1]), ([0xC3], [0xED]), ([0xC3], [0xC1]), ([0xC3], [0xC9]),
      ([0xC3], [0xCD]),
      ([0xC3], [0xD3]), ([0xC3], [0xDA]), ([0xC3], [0xD1]), ([0xC2], []),
      ([0xE2, 0x20AC, 0x201C], [0x2D]),
      ([0xE2, 0x20AC, 0x153], [0x22]), ([0xE2, 0x20AC], [0x22]),
      ([0xE2, 0x20AC, 0xA2], [0x2D]), ([0xE2, 0x20AC, 0xA6], [0x2E, 0x2E, 0x2E])]"

definition replacements :: "(pystr \<times> pystr) list" where
  "replacements = dict_literal replacements_literal"

text \<open>The loop \<open>for wrong, correct in replacements.items()\<close>.\<close>

definition apply_replacements :: "(pystr \<times> pystr) list \<Rightarrow> pystr \<Rightarrow> pystr" where
  "apply_replacements tbl cleaned = foldl (\<lambda>s (wrong, correct). replace_py wrong correct s) cleaned tbl"

text \<open>\<open>None\<close> is Python's \<open>None\<close>. The dash test is made on the value as passed, before any trimming.\<close>

definition clean_value :: "pystr \<Rightarrow> pystr option" where
  "clean_value val =
     (if val = [] \<or> val = [0x2D] \<or> strip_py val = [] then None
      else Some (apply_replacements replacements (strip_py val)))"

section \<open>Line parsing (\<open>TxtToSQLiteConverter.parse_line\<close>)\<close>

type_synonym row = "pystr option list"

text \<open>
  No operation of the body raises on a string, so the \<open>except\<close> branch is never taken;
  the only \<open>None\<close> result is the one for a line that is empty once stripped.
\<close>

definition parse_line :: "pystr \<Rightarrow> row option" where
  "parse_line line =
     (let cleaned = strip_py line in
      if cleaned = [] then None
      else
        let values = split_py 0x7C cleaned;
            values' =
              (if length values < 15 then
                 map Some values @ replicate (15 - length values) None
               else if length values > 15 then
                 (let extra_fields = drop 15 values;
                      values = take 15 values
                  in map Some
                       (if extra_fields \<noteq> [] \<and> values ! 1 \<noteq> []
                        then values[1 := values ! 1 @ [0x20] @ join_py [0x20] extra_fields]
                        else values))
               else map Some values)
        in Some (map (\<lambda>v. case v of None \<Rightarrow> None | Some s \<Rightarrow> clean_value s) values'))"


section \<open>Text files\<close>

text \<open>
  A file is a list of bytes. The four codecs the loader names are total (latin-1 and its
  alias iso-8859-1) or partial (cp1252, utf-8). With \<open>errors='replace'\<close> an undecodable
  byte sequence becomes U+FFFD; in strict mode the decoder raises \<open>UnicodeDecodeError\<close>,
  which is the result \<open>None\<close> here. Decoding is modelled on the whole file at once.
\<close>

type_synonym byte = "8 word"

datatype encoding = Latin1 | Iso8859_1 | Cp1252 | Utf8

datatype errors = Strict | Replace

definition emit :: "nat \<Rightarrow> pystr option \<Rightarrow> pystr option" where
  "emit c rest = map_option ((#) c) rest"

definition bad :: "errors \<Rightarrow> pystr option \<Rightarrow> pystr option" where
  "bad e rest = (case e of Strict \<Rightarrow> None | Replace \<Rightarrow> emit 0xFFFD rest)"

definition cp1252_table :: "nat \<Rightarrow> nat option" where
  "cp1252_table b =
     (if b < 0x80 \<or> 0xA0 \<le> b then Some b
      else map_of
        [(0x80, 0x20AC), (0x82, 0x201A), (0x83, 0x0192), (0x84, 0x201E), (0x85, 0x2026),
         (0x86, 0x2020), (0x87, 0x2021), (0x88, 0x02C6), (0x89, 0x2030), (0x8A, 0x0160),
         (0x8B, 0x2039), (0x8C, 0x0152), (0x8E, 0x017D), (0x91, 0x2018), (0x92, 0x2019),
         (0x93, 0x201C), (0x94, 0x201D), (0x95, 0x2022), (0x96, 0x2013), (0x97, 0x2014),
         (0x98, 0x02DC), (0x99, 0x2122), (0x9A, 0x0161), (0x9B, 0x203A), (0x9C, 0x0153),
         (0x9E, 0x017E), (0x9F, 0x0178)] b)"

fun cp1252_decode :: "errors \<Rightarrow> nat list \<Rightarrow> pystr option" where
  "cp1252_decode e [] = Some []"
| "cp1252_decode e (b # bs) =
     (case cp1252_table b of
        Some c \<Rightarrow> emit c (cp1252_decode e bs)
      | None \<Rightarrow> bad e (cp1252_decode e bs))"

definition cont :: "nat \<Rightarrow> bool" where
  "cont b \<longleftrightarrow> 0x80 \<le> b \<and> b \<le> 0xBF"

text \<open>The second byte of a three- or four-byte sequence has a range that depends on the lead byte.\<close>

definition second3 :: "nat \<Rightarrow> nat \<Rightarrow> bool" where
  "second3 b c \<longleftrightarrow>
     (if b = 0xE0 then 0xA0 \<le> c \<and> c \<le> 0xBF
      else if b = 0xED then 0x80 \<le> c \<and> c \<le> 0x9F
      else cont c)"

definition second4 :: "nat \<Rightarrow> nat \<Rightarrow> bool" where
  "second4 b c \<longleftrightarrow>
     (if b = 0xF0 then 0x90 \<le> c \<and> c \<le> 0xBF
      else if b = 0xF4 then 0x80 \<le> c \<and> c \<le> 0x8F
      else cont c)"

text \<open>
  An ill-formed sequence is replaced (or reported) as far as it was well formed, and
  decoding resumes at the first byte that did not fit.
\<close>

fun utf8_decode :: "errors \<Rightarrow> nat list \<Rightarrow> pystr option" where
  "utf8_decode e [] = Some []"
| "utf8_decode e (b # bs) =
     (if b < 0x80 then emit b (utf8_decode e bs)
      else if 0xC2 \<le> b \<and> b \<le> 0xDF then
        (case bs of
           [] \<Rightarrow> bad e (utf8_decode e bs)
         | c1 # r1 \<Rightarrow>
             if cont c1 then emit ((b - 0xC0) * 64 + (c1 - 0x80)) (utf8_decode e r1)
             else bad e (utf8_decode e bs))
      else if 0xE0 \<le> b \<and> b \<le> 0xEF then
        (case bs of
           [] \<Rightarrow> bad e (utf8_decode e bs)
         | c1 # r1 \<Rightarrow>
             if second3 b c1 then
               (case r1 of
                  [] \<Rightarrow> bad e (utf8_decode e r1)
                | c2 # r2 \<Rightarrow>
                    if cont c2
                    then emit ((b - 0xE0) * 4096 + (c1 - 0x80) * 64 + (c2 - 0x80)) (utf8_decode e r2)
                    else bad e (utf8_decode e r1))
             else bad e (utf8_decode e bs))
      else if 0xF0 \<le> b \<and> b \<le> 0xF4 then
        (case bs of
           [] \<Rightarrow> bad e (utf8_decode e bs)
         | c1 # r1 \<Rightarrow>
             if second4 b c1 then
               (case r1 of
                  [] \<Rightarrow> bad e (utf8_decode e r1)
                | c2 # r2 \<Rightarrow>
                    if cont c2 then
                      (case r2 of
                         [] \<Rightarrow> bad e (utf8_decode e r2)
                       | c3 # r3 \<Rightarrow>
                           if cont c3
                           then emit ((b - 0xF0) * 262144 + (c1 - 0x80) * 4096 + (c2 - 0x80) * 64 + (c3 - 0x80))
                                  (utf8_decode e r3)
                           else bad e (utf8_decode e r2))
                    else bad e (utf8_decode e r1))
             else bad e (utf8_decode e bs))
      else bad e (utf8_decode e bs))"

definition decode :: "encoding \<Rightarrow> errors \<Rightarrow> nat list \<Rightarrow> pystr option" where
  "decode enc e bs =
     (case enc of
        Latin1 \<Rightarrow> Some bs
      | Iso8859_1 \<Rightarrow> Some bs
      | Cp1252 \<Rightarrow> cp1252_decode e bs
      | Utf8 \<Rightarrow> utf8_decode e bs)"

text \<open>
  Text mode translates \<open>\r\n\<close> and a lone \<open>\r\<close> to \<open>\n\<close>; the flag says that the
  previous character was \<open>\r\<close>.
\<close>

fun translate_newlines :: "bool \<Rightarrow> pystr \<Rightarrow> pystr" where
  "translate_newlines cr [] = []"
| "translate_newlines cr (c # cs) =
     (if c = 0x0D then 0x0A # translate_newlines True cs
      else if c = 0x0A then (if cr then translate_newlines False cs else 0x0A # translate_newlines False cs)
      else c # translate_newlines False cs)"

text \<open>
  \<open>open(path, 'r', encoding=enc, errors=e)\<close>: the text still to be read, or \<open>None\<close>
  when opening or decoding raises. A file that does not exist is \<open>None\<close>.
\<close>

definition open_text :: "encoding \<Rightarrow> errors \<Rightarrow> byte list option \<Rightarrow> pystr option" where
  "open_text enc e file =
     (case file of
        None \<Rightarrow> None
      | Some bytes \<Rightarrow> map_option (translate_newlines False) (decode enc e (map unat bytes)))"

text \<open>\<open>f.readline()\<close>: the next line with its terminator and the text left; the empty string at the end.\<close>

fun readline :: "pystr \<Rightarrow> pystr \<times> pystr" where
  "readline [] = ([], [])"
| "readline (c # cs) =
     (if c = 0x0A then ([c], cs)
      else (case readline cs of (l, r) \<Rightarrow> (c # l, r)))"

text \<open>Iterating over the file object: the lines that \<open>readline\<close> would return one after the other.\<close>

fun file_lines :: "pystr \<Rightarrow> pystr list" where
  "file_lines [] = []"
| "file_lines (c # cs) =
     (if c = 0x0A then [c] # file_lines cs
      else (case file_lines cs of
              [] \<Rightarrow> [[c]]
            | l # ls \<Rightarrow> (c # l) # ls))"

section \<open>Encoding detection (\<open>TxtToSQLiteConverter.detect_encoding\<close>)\<close>

text \<open>The loop \<open>for _ in range(5)\<close>: does one of the next lines hold the delimiter?\<close>

fun sample_lines :: "nat \<Rightarrow> pystr \<Rightarrow> bool" where
  "sample_lines 0 f = False"
| "sample_lines (Suc n) f =
     (case readline f of (line, f') \<Rightarrow> if 0x7C \<in> set line then True else sample_lines n f')"

text \<open>The loop over \<open>encodings_to_try\<close>; both \<open>except\<close> branches continue with the next candidate.\<close>

fun try_encodings :: "byte list option \<Rightarrow> encoding list \<Rightarrow> encoding option" where
  "try_encodings file [] = None"
| "try_encodings file (enc # encs) =
     (case open_text enc Strict file of
        None \<Rightarrow> try_encodings file encs
      | Some f \<Rightarrow> if sample_lines 5 f then Some enc else try_encodings file encs)"

definition detect_encoding :: "byte list option \<Rightarrow> encoding" where
  "detect_encoding file =
     (case try_encodings file [Latin1, Iso8859_1, Cp1252, Utf8] of
        Some enc \<Rightarrow> enc
      | None \<Rightarrow> Latin1)"


section \<open>Memory check (\<open>TxtToSQLiteConverter.check_memory\<close>)\<close>

text \<open>
  The fields of the converter object that the load reads and writes. The database
  connection is passed beside it.
\<close>

record converter =
  batch_size :: nat
  total_records :: nat
  encoding :: encoding

text \<open>
  \<open>available\<close> is \<open>psutil.virtual_memory().available\<close>, a number of bytes. Dividing an
  integer below \<open>2^53\<close> by \<open>1024**3\<close> is exact in floating point, so the quotient is a
  rational here.
\<close>

definition check_memory :: "nat \<Rightarrow> converter \<Rightarrow> rat \<times> converter" where
  "check_memory available cv =
     (let available_gb = of_nat available / (1024 ^ 3)
      in (available_gb, if available_gb < 1 then cv\<lparr>batch_size := 15000\<rparr> else cv))"

section \<open>The destination table\<close>

text \<open>
  The table \<open>contribuyentes\<close> is a list of rows in insertion order. \<open>live\<close> is what the
  connection sees, \<open>durable\<close> what the last commit left in the database file. \<open>tick\<close>
  counts the row insertions attempted so far; the environment decides by it which
  attempts fail.
\<close>

record database =
  live :: "row list"
  durable :: "row list"
  in_tx :: bool
  tick :: nat

datatype exn = OperationalError | OSError | ZeroDivisionError | KeyboardInterrupt

text \<open>\<open>KeyboardInterrupt\<close> derives from \<open>BaseException\<close>: an \<open>except Exception\<close> clause lets it pass.\<close>

fun is_exception :: "exn \<Rightarrow> bool" where
  "is_exception KeyboardInterrupt = False"
| "is_exception _ = True"

definition ruc :: "row \<Rightarrow> pystr option" where
  "ruc r = (case r of [] \<Rightarrow> None | v # _ \<Rightarrow> v)"

text \<open>
  \<open>INSERT OR REPLACE\<close> on \<open>ruc TEXT PRIMARY KEY\<close>: a row with the same key is deleted
  before the new one is stored. The column is not declared \<open>NOT NULL\<close>, and SQLite lets
  NULL into such a key and never takes two NULLs for a conflict.
\<close>

definition insert_or_replace :: "row \<Rightarrow> row list \<Rightarrow> row list" where
  "insert_or_replace r rows =
     (case ruc r of
        None \<Rightarrow> rows @ [r]
      | Some k \<Rightarrow> filter (\<lambda>q. ruc q \<noteq> Some k) rows @ [r])"

definition connect_db :: "row list \<Rightarrow> database" where
  "connect_db rows = \<lparr>live = rows, durable = rows, in_tx = False, tick = 0\<rparr>"

definition commit :: "database \<Rightarrow> database" where
  "commit d = (if in_tx d then d\<lparr>durable := live d, in_tx := False\<rparr> else d)"

definition rollback :: "database \<Rightarrow> database" where
  "rollback d = (if in_tx d then d\<lparr>live := durable d, in_tx := False\<rparr> else d)"

text \<open>Closing the connection loses whatever was not committed.\<close>

definition close :: "database \<Rightarrow> database" where
  "close d = d\<lparr>live := durable d, in_tx := False\<rparr>"

text \<open>Outside a transaction a statement is committed as soon as it has run.\<close>

definition autocommit :: "database \<Rightarrow> database" where
  "autocommit d = (if in_tx d then d else d\<lparr>durable := live d\<rparr>)"

text \<open>\<open>create_table\<close>: drop the table, create it again, commit.\<close>

definition create_table :: "database \<Rightarrow> database" where
  "create_table d = commit (autocommit (d\<lparr>live := []\<rparr>))"

definition begin_transaction :: "database \<Rightarrow> exn + database" where
  "begin_transaction d = (if in_tx d then Inl OperationalError else Inr (d\<lparr>in_tx := True\<rparr>))"

text \<open>
  One execution of the insert statement with one record: \<open>True\<close> when the row was
  stored. It fails when the record does not supply the 15 bindings or when the
  environment makes this attempt fail.
\<close>

definition execute_insert :: "(nat \<Rightarrow> bool) \<Rightarrow> row \<Rightarrow> database \<Rightarrow> bool \<times> database" where
  "execute_insert fault r d =
     (if length r \<noteq> 15 \<or> fault (tick d) then (False, d\<lparr>tick := Suc (tick d)\<rparr>)
      else (True, d\<lparr>live := insert_or_replace r (live d), in_tx := True, tick := Suc (tick d)\<rparr>))"

text \<open>\<open>cursor.executemany\<close>: the rows in order; the first failure raises and the rows before it stay.\<close>

fun executemany :: "(nat \<Rightarrow> bool) \<Rightarrow> row list \<Rightarrow> database \<Rightarrow> bool \<times> database" where
  "executemany fault [] d = (True, d)"
| "executemany fault (r # rs) d =
     (case execute_insert fault r d of
        (True, d') \<Rightarrow> executemany fault rs d'
      | (False, d') \<Rightarrow> (False, d'))"

section \<open>Batch insertion (\<open>TxtToSQLiteConverter.insert_batch\<close>)\<close>

text \<open>The fallback loop, with its counter \<open>success_count\<close>.\<close>

fun one_by_one :: "(nat \<Rightarrow> bool) \<Rightarrow> row list \<Rightarrow> database \<Rightarrow> nat \<Rightarrow> database \<times> nat" where
  "one_by_one fault [] d success_count = (d, success_count)"
| "one_by_one fault (r # rs) d success_count =
     (case execute_insert fault r d of
        (True, d') \<Rightarrow> one_by_one fault rs d' (Suc success_count)
      | (False, d') \<Rightarrow> one_by_one fault rs d' success_count)"

text \<open>
  The second component is what the fallback prints, \<open>Insertados success_count/len(batch)\<close>,
  and \<open>None\<close> when the fallback did not run.
\<close>

definition insert_batch :: "(nat \<Rightarrow> bool) \<Rightarrow> row list \<Rightarrow> database \<Rightarrow> database \<times> (nat \<times> nat) option" where
  "insert_batch fault batch d =
     (if batch = [] then (d, None)
      else (case executemany fault batch d of
              (True, d') \<Rightarrow> (d', None)
            | (False, d') \<Rightarrow>
                (case one_by_one fault batch d' 0 of
                   (d'', success_count) \<Rightarrow> (d'', Some (success_count, length batch)))))"

section \<open>The load (\<open>TxtToSQLiteConverter.load_data\<close>)\<close>

text \<open>
  What the environment does at one point of the run: nothing, an input or output
  error, or the user's Ctrl+C. \<open>signal ev n\<close> is what happens while line \<open>n\<close> is fetched
  from the file, \<open>report_signal ev\<close> what happens as the final report starts, after the
  commit. \<open>elapsed ev\<close> is the difference of the two clock readings,
  \<open>time.time() - self.start_time\<close>, that the final report computes; on a coarse clock
  it is zero for a short run.
\<close>

datatype signal = Quiet | IOFailure | CtrlC

record env =
  txt_file :: "byte list option"
  existing :: "row list"
  available :: nat
  respuesta :: pystr
  fault :: "nat \<Rightarrow> bool"
  signal :: "nat \<Rightarrow> signal"
  report_signal :: signal
  elapsed :: rat

text \<open>The local variables of the loop.\<close>

record progress =
  batch_records :: "row list"
  lines_processed :: nat
  batch_count :: nat
  error_count :: nat

text \<open>
  The body of the loop for one line. Nothing in it raises (\<open>parse_line\<close> and
  \<open>insert_batch\<close> handle their own errors, the progress display only prints), so the
  inner \<open>except\<close> branch has no counterpart.
\<close>

definition process_line ::
  "(nat \<Rightarrow> bool) \<Rightarrow> pystr \<Rightarrow> converter \<times> database \<times> progress \<Rightarrow> converter \<times> database \<times> progress" where
  "process_line flt line st =
     (case st of (cv, d, p) \<Rightarrow>
        let p1 = (case parse_line line of
                    None \<Rightarrow> p\<lparr>error_count := Suc (error_count p)\<rparr>
                  | Some record \<Rightarrow>
                      if record \<noteq> [] then p\<lparr>batch_records := batch_records p @ [record]\<rparr>
                      else p\<lparr>error_count := Suc (error_count p)\<rparr>)
        in (case (if batch_size cv \<le> length (batch_records p1)
                  then (case insert_batch flt (batch_records p1) d of
                          (d', report) \<Rightarrow>
                            (cv\<lparr>total_records := total_records cv + length (batch_records p1)\<rparr>, d',
                             p1\<lparr>batch_count := Suc (batch_count p1), batch_records := []\<rparr>))
                  else (cv, d, p1)) of
              (cv2, d2, p2) \<Rightarrow> (cv2, d2, p2\<lparr>lines_processed := Suc (lines_processed p2)\<rparr>)))"

text \<open>\<open>for line_num, line in enumerate(file, 1)\<close>; the first component is the exception that ended it.\<close>

fun load_loop ::
  "env \<Rightarrow> pystr list \<Rightarrow> nat \<Rightarrow> converter \<times> database \<times> progress \<Rightarrow> exn option \<times> converter \<times> database \<times> progress" where
  "load_loop ev [] line_num st = (None, st)"
| "load_loop ev (line # rest) line_num st =
     (case signal ev line_num of
        IOFailure \<Rightarrow> (Some OSError, st)
      | CtrlC \<Rightarrow> (Some KeyboardInterrupt, st)
      | Quiet \<Rightarrow> load_loop ev rest (Suc line_num) (process_line (fault ev) line st))"

text \<open>The figures of the final report (\<open>show_final_results\<close>).\<close>

record summary =
  lineas_totales :: nat
  registros_insertados :: nat
  lineas_con_errores :: nat
  registros_en_bd :: nat
  diferencia :: "nat option"

text \<open>
  The report divides by \<open>total_lines\<close> for the success rate and then by the elapsed
  time for the two speeds, without a test of either divisor; it counts the rows last.
\<close>

definition show_final_results :: "env \<Rightarrow> converter \<Rightarrow> database \<Rightarrow> nat \<Rightarrow> nat \<Rightarrow> exn + summary" where
  "show_final_results ev cv d total_lines errors =
     (case report_signal ev of
        CtrlC \<Rightarrow> Inl KeyboardInterrupt
      | IOFailure \<Rightarrow> Inl OSError
      | Quiet \<Rightarrow>
          if total_lines = 0 \<or> elapsed ev = 0 then Inl ZeroDivisionError
          else
            let db_count = length (live d)
            in Inr \<lparr>lineas_totales = total_lines,
                    registros_insertados = total_records cv,
                    lineas_con_errores = errors,
                    registros_en_bd = db_count,
                    diferencia = (if total_records cv \<noteq> db_count
                                  then Some (nat \<bar>int (total_records cv) - int db_count\<bar>)
                                  else None)\<rparr>)"

definition start :: progress where
  "start = \<lparr>batch_records = [], lines_processed = 0, batch_count = 0, error_count = 0\<rparr>"

text \<open>The rows left over after the loop are inserted as a last batch.\<close>

definition flush_rest :: "(nat \<Rightarrow> bool) \<Rightarrow> converter \<times> database \<times> progress \<Rightarrow> converter \<times> database" where
  "flush_rest flt st =
     (case st of (cv, d, p) \<Rightarrow>
        if batch_records p \<noteq> []
        then (case insert_batch flt (batch_records p) d of
                (d', report) \<Rightarrow> (cv\<lparr>total_records := total_records cv + length (batch_records p)\<rparr>, d'))
        else (cv, d))"

text \<open>
  The part of the \<open>try\<close> block of \<open>load_data\<close> that comes before \<open>self.conn.commit()\<close>:
  begin the transaction, open the file, skip the header, run the loop, insert the
  rest. The first component is the exception that ended it.
\<close>

definition load_rows :: "env \<Rightarrow> converter \<Rightarrow> database \<Rightarrow> exn option \<times> converter \<times> database \<times> progress" where
  "load_rows ev cv d0 =
     (case begin_transaction d0 of
        Inl e \<Rightarrow> (Some e, cv, d0, start)
      | Inr d1 \<Rightarrow>
          (case open_text (encoding cv) Replace (txt_file ev) of
             None \<Rightarrow> (Some OSError, cv, d1, start)
           | Some f \<Rightarrow>
               (case readline f of
                  (header, body) \<Rightarrow>
                    (case load_loop ev (file_lines body) 1 (cv, d1, start) of
                       (Some e, cv2, d2, p) \<Rightarrow> (Some e, cv2, d2, p)
                     | (None, cv2, d2, p) \<Rightarrow>
                         (case flush_rest (fault ev) (cv2, d2, p) of
                            (cv3, d3) \<Rightarrow> (None, cv3, d3, p))))))"

text \<open>
  \<open>load_data\<close>: the result, the converter and the database as the call leaves them.
  The commit is followed by the final report inside the same \<open>try\<close>. The handler
  \<open>except Exception\<close> rolls back and raises again, also when the exception comes from
  the report; an interrupt passes it.
\<close>

definition load_data :: "env \<Rightarrow> converter \<Rightarrow> database \<Rightarrow> (exn + summary) \<times> converter \<times> database" where
  "load_data ev cv d0 =
     (case load_rows ev cv d0 of
        (Some e, cv1, d1, p) \<Rightarrow> (Inl e, cv1, if is_exception e then rollback d1 else d1)
      | (None, cv1, d1, p) \<Rightarrow>
          let d2 = commit d1
          in (case show_final_results ev cv1 d2 (lines_processed p) (error_count p) of
                Inl e \<Rightarrow> (Inl e, cv1, if is_exception e then rollback d2 else d2)
              | Inr s \<Rightarrow> (Inr s, cv1, d2)))"

section \<open>The program (\<open>main\<close>)\<close>

text \<open>
  \<open>respuesta\<close> is the answer to the prompt, already in lower case. After a load that
  returned, \<open>main\<close> builds the indexes, vacuums and prints a sample; none of these
  steps changes a row, and they are left out. The \<open>finally\<close> clause closes the
  connection on every path.
\<close>

datatype outcome =
    FileMissing
  | InsufficientMemory
  | Cancelled
  | Finished "exn + summary" converter database

definition main :: "env \<Rightarrow> outcome" where
  "main ev =
     (if txt_file ev = None then FileMissing
      else
        let converter = \<lparr>batch_size = 30000, total_records = 0, encoding = detect_encoding (txt_file ev)\<rparr>
        in (case check_memory (available ev) converter of
              (available_memory, converter) \<Rightarrow>
                if available_memory < 1 / 2 then InsufficientMemory
                else if respuesta ev \<noteq> [0x73] then Cancelled
                else
                  (case load_data ev converter (create_table (connect_db (existing ev))) of
                     (res, converter, d) \<Rightarrow> Finished res converter (close d))))"


section \<open>The records of a file\<close>

text \<open>
  The lines the load iterates over (the text as \<open>load_data\<close> opens it, without the header
  line) and the records \<open>parse_line\<close> makes of them, in file order.
\<close>

definition data_lines :: "env \<Rightarrow> pystr list" where
  "data_lines ev =
     (case open_text (detect_encoding (txt_file ev)) Replace (txt_file ev) of
        None \<Rightarrow> []
      | Some f \<Rightarrow> file_lines (snd (readline f)))"

definition parsed_records :: "env \<Rightarrow> row list" where
  "parsed_records ev = List.map_filter parse_line (data_lines ev)"

section \<open>Properties of the line parser\<close>

lemma split_py_nonempty: "split_py sep s \<noteq> []"
  by (induction s) (auto split: list.splits)

lemma length_split_py: "length (split_py sep s) = Suc (length (filter (\<lambda>c. c = sep) s))"
  by (induction s) (auto split: list.splits simp: split_py_nonempty)

lemma filter_dropWhile_disjoint:
  "(\<And>x. P x \<Longrightarrow> \<not> Q x) \<Longrightarrow> filter P (dropWhile Q xs) = filter P xs"
  by (induction xs) auto

lemma pipe_not_space: "\<not> isspace 0x7C"
  by (simp add: isspace_def)

lemma filter_pipe_strip: "filter (\<lambda>c. c = 0x7C) (strip_py s) = filter (\<lambda>c. c = 0x7C) s"
proof -
  have d: "filter (\<lambda>c. c = 0x7C) (dropWhile isspace xs) = filter (\<lambda>c. c = 0x7C) xs" for xs
    by (rule filter_dropWhile_disjoint) (simp add: pipe_not_space)
  have "filter (\<lambda>c. c = 0x7C) (strip_py s) = rev (filter (\<lambda>c. c = 0x7C) (dropWhile isspace (rev (dropWhile isspace s))))"
    by (simp add: strip_py_def rev_filter)
  also have "\<dots> = rev (filter (\<lambda>c. c = 0x7C) (rev (dropWhile isspace s)))"
    by (simp only: d)
  also have "\<dots> = filter (\<lambda>c. c = 0x7C) (dropWhile isspace s)"
    by (simp add: rev_filter)
  finally show ?thesis by (simp only: d)
qed

lemma fields_strip: "length (split_py 0x7C (strip_py s)) = length (split_py 0x7C s)"
  by (simp only: length_split_py filter_pipe_strip)

text \<open>
  Claim C4. A line that is not empty once stripped and has fewer than 15 fields parses
  to a record of exactly 15 values: the fields present, each cleaned, and null in every
  position after them.
\<close>

theorem parse_line_short:
  assumes "strip_py line \<noteq> []" and "length (split_py 0x7C line) < 15"
  shows "\<exists>r. parse_line line = Some r \<and> length r = 15 \<and>
           (\<forall>i. i < length (split_py 0x7C line) \<longrightarrow>
                  r ! i = clean_value (split_py 0x7C (strip_py line) ! i)) \<and>
           (\<forall>i. length (split_py 0x7C line) \<le> i \<and> i < 15 \<longrightarrow> r ! i = None)"
proof -
  let ?vs = "split_py 0x7C (strip_py line)"
  let ?r = "map (\<lambda>v. case v of None \<Rightarrow> None | Some s \<Rightarrow> clean_value s)
              (map Some ?vs @ replicate (15 - length ?vs) None)"
  have n: "length ?vs = length (split_py 0x7C line)" by (rule fields_strip)
  with assms have lt: "length ?vs < 15" by simp
  have p: "parse_line line = Some ?r"
    using assms(1) lt by (simp add: parse_line_def Let_def)
  have l: "length ?r = 15" using lt by simp
  have a: "r' ! i = clean_value (?vs ! i)" if "i < length ?vs" "r' = ?r" for i r'
    using that by (simp add: nth_append)
  have b: "?r ! i = None" if "length ?vs \<le> i" "i < 15" for i
    using that by (simp add: nth_append)
  show ?thesis using p l a b n by (metis (no_types, lifting))
qed

theorem parse_line_short_witness:
  "strip_py [0x31, 0x7C, 0x41, 0x0A] \<noteq> [] \<and>
   length (split_py 0x7C ([0x31, 0x7C, 0x41, 0x0A] :: pystr)) < 15 \<and>
   (\<exists>r. parse_line [0x31, 0x7C, 0x41, 0x0A] = Some r \<and> length r = 15 \<and>
        r ! 0 = Some [0x31] \<and> r ! 1 = Some [0x41] \<and> r ! 2 = None \<and> r ! 14 = None)"
proof -
  let ?l = "[0x31, 0x7C, 0x41, 0x0A] :: pystr"
  have s: "strip_py ?l = [0x31, 0x7C, 0x41]"
    by (simp add: strip_py_def isspace_def)
  have h1: "strip_py ?l \<noteq> []" by (simp add: s)
  have h2: "length (split_py 0x7C ?l) < 15" by simp
  have n: "length (split_py 0x7C ?l) = 2" by simp
  have v: "split_py 0x7C (strip_py ?l) = [[0x31], [0x41]]" by (simp add: s)
  have c: "clean_value [0x31] = Some [0x31]" "clean_value [0x41] = Some [0x41]"
    by (simp_all add: clean_value_def strip_py_def isspace_def apply_replacements_def replacements_def
        dict_literal_def replacements_literal_def)
  from parse_line_short [OF h1 h2] obtain r where
    r: "parse_line ?l = Some r" "length r = 15"
       "\<forall>i. i < length (split_py 0x7C ?l) \<longrightarrow> r ! i = clean_value (split_py 0x7C (strip_py ?l) ! i)"
       "\<forall>i. length (split_py 0x7C ?l) \<le> i \<and> i < 15 \<longrightarrow> r ! i = None"
    by blast
  from r(3) have "r ! 0 = clean_value (split_py 0x7C (strip_py ?l) ! 0)"
    unfolding n by simp
  then have r0: "r ! 0 = Some [0x31]" unfolding v by (simp add: c)
  from r(3) have "r ! 1 = clean_value (split_py 0x7C (strip_py ?l) ! 1)"
    unfolding n by simp
  then have r1: "r ! 1 = Some [0x41]" unfolding v by (simp add: c)
  from r(4) have r2: "r ! 2 = None" unfolding n by simp
  from r(4) have r14: "r ! 14 = None" unfolding n by simp
  from r(1,2) r0 r1 r2 r14 h1 h2 show ?thesis by blast
qed

text \<open>
  Claim C3, as the code has it. A line with more than 15 fields parses to exactly 15
  values. When the name field is not empty, the name is the cleaned value of the
  original name, a space and the overflow fields joined by spaces, in their order; when
  the name field is empty the overflow fields are dropped and the name is null. Every
  other value is the cleaned field of the same position.
\<close>

theorem parse_line_long:
  assumes "strip_py line \<noteq> []" and "15 < length (split_py 0x7C line)"
  shows "\<exists>r. parse_line line = Some r \<and> length r = 15 \<and>
           r ! 1 = (if split_py 0x7C (strip_py line) ! 1 = [] then None
                    else clean_value (split_py 0x7C (strip_py line) ! 1 @ [0x20] @
                           join_py [0x20] (drop 15 (split_py 0x7C (strip_py line))))) \<and>
           (\<forall>i. i < 15 \<and> i \<noteq> 1 \<longrightarrow> r ! i = clean_value (split_py 0x7C (strip_py line) ! i))"
proof -
  let ?vs = "split_py 0x7C (strip_py line)"
  let ?name = "?vs ! 1 @ [0x20] @ join_py [0x20] (drop 15 ?vs)"
  let ?ws = "if drop 15 ?vs \<noteq> [] \<and> take 15 ?vs ! 1 \<noteq> [] then (take 15 ?vs)[1 := take 15 ?vs ! 1 @ [0x20] @ join_py [0x20] (drop 15 ?vs)] else take 15 ?vs"
  let ?r = "map (\<lambda>v. case v of None \<Rightarrow> None | Some s \<Rightarrow> clean_value s) (map Some ?ws)"
  have "length ?vs = length (split_py 0x7C line)" by (rule fields_strip)
  with assms have gt: "15 < length ?vs" by simp
  have p: "parse_line line = Some ?r"
    using assms(1) gt by (simp add: parse_line_def Let_def)
  have lw: "length ?ws = 15" using gt by simp
  then have l: "length ?r = 15" by simp
  have ex: "drop 15 ?vs \<noteq> []" using gt by simp
  have t1: "take 15 ?vs ! 1 = ?vs ! 1" by simp
  have w1: "?ws ! 1 = (if ?vs ! 1 = [] then [] else ?name)"
    using gt ex by (simp add: t1)
  have r1: "?r ! 1 = clean_value (?ws ! 1)"
    using lw by (simp del: map_map)
  have cn: "clean_value [] = None" by (simp add: clean_value_def)
  have a: "?r ! 1 = (if ?vs ! 1 = [] then None else clean_value ?name)"
    unfolding r1 w1 using cn by simp
  have b: "?r ! i = clean_value (?vs ! i)" if "i < 15" "i \<noteq> 1" for i
  proof -
    have "?ws ! i = ?vs ! i" using that gt by simp
    moreover have "?r ! i = clean_value (?ws ! i)" using lw that by (simp del: map_map)
    ultimately show ?thesis by simp
  qed
  show ?thesis
    apply (rule exI [of _ ?r])
    using p l a b by blast
qed

theorem parse_line_long_witness:
  "strip_py [0x31,0x7C,0x41,0x7C,0x7C,0x7C,0x7C,0x7C,0x7C,0x7C,0x7C,0x7C,0x7C,0x7C,0x7C,0x7C,0x7C,0x42,0x7C,0x43,0x0A] \<noteq> [] \<and>
   15 < length (split_py 0x7C ([0x31,0x7C,0x41,0x7C,0x7C,0x7C,0x7C,0x7C,0x7C,0x7C,0x7C,0x7C,0x7C,0x7C,0x7C,0x7C,0x7C,0x42,0x7C,0x43,0x0A]::pystr)) \<and>
   (\<exists>r. parse_line [0x31,0x7C,0x41,0x7C,0x7C,0x7C,0x7C,0x7C,0x7C,0x7C,0x7C,0x7C,0x7C,0x7C,0x7C,0x7C,0x7C,0x42,0x7C,0x43,0x0A] = Some r \<and> length r = 15 \<and>
     r ! 1 = Some [0x41, 0x20, 0x42, 0x20, 0x43])"
proof -
  let ?l = "[0x31,0x7C,0x41,0x7C,0x7C,0x7C,0x7C,0x7C,0x7C,0x7C,0x7C,0x7C,0x7C,0x7C,0x7C,0x7C,0x7C,0x42,0x7C,0x43,0x0A] :: pystr"
  have s: "strip_py ?l = [0x31,0x7C,0x41,0x7C,0x7C,0x7C,0x7C,0x7C,0x7C,0x7C,0x7C,0x7C,0x7C,0x7C,0x7C,0x7C,0x7C,0x42,0x7C,0x43]"
    by (simp add: strip_py_def isspace_def)
  have h1: "strip_py ?l \<noteq> []" by (simp add: s)
  have h2: "15 < length (split_py 0x7C ?l)" by simp
  have v: "split_py 0x7C (strip_py ?l) = [[0x31],[0x41],[],[],[],[],[],[],[],[],[],[],[],[],[],[0x42],[0x43]]"
    by (simp add: s)
  have c: "clean_value [0x41, 0x20, 0x42, 0x20, 0x43] = Some [0x41, 0x20, 0x42, 0x20, 0x43]"
    by (simp add: clean_value_def strip_py_def isspace_def apply_replacements_def replacements_def
        dict_literal_def replacements_literal_def)
  from parse_line_long [OF h1 h2] obtain r where
    r: "parse_line ?l = Some r" "length r = 15"
       "r ! 1 = (if split_py 0x7C (strip_py ?l) ! 1 = [] then None
                    else clean_value (split_py 0x7C (strip_py ?l) ! 1 @ [0x20] @
                           join_py [0x20] (drop 15 (split_py 0x7C (strip_py ?l)))))"
    by blast
  have "r ! 1 = Some [0x41, 0x20, 0x42, 0x20, 0x43]"
    using r(3) unfolding v by (simp add: c)
  with r(1,2) h1 h2 show ?thesis by blast
qed

text \<open>
  A line of 16 fields whose name is empty: the overflow field \<open>X\<close> appears nowhere in
  the record.
\<close>

theorem parse_line_long_counterexample:
  "length (split_py 0x7C ([0x31,0x7C,0x7C,0x7C,0x7C,0x7C,0x7C,0x7C,0x7C,0x7C,0x7C,0x7C,0x7C,0x7C,0x7C,0x7C,0x58]::pystr)) = 16 \<and>
   drop 15 (split_py 0x7C ([0x31,0x7C,0x7C,0x7C,0x7C,0x7C,0x7C,0x7C,0x7C,0x7C,0x7C,0x7C,0x7C,0x7C,0x7C,0x7C,0x58]::pystr)) = [[0x58]] \<and>
   parse_line [0x31,0x7C,0x7C,0x7C,0x7C,0x7C,0x7C,0x7C,0x7C,0x7C,0x7C,0x7C,0x7C,0x7C,0x7C,0x7C,0x58]
     = Some [Some [0x31], None, None, None, None, None, None, None, None, None, None, None, None, None, None]"
  by (simp add: parse_line_def strip_py_def isspace_def clean_value_def apply_replacements_def replacements_def
        dict_literal_def replacements_literal_def)

section \<open>Properties of value cleaning\<close>

text \<open>
  Claim C5, as the code has it. Cleaning yields null exactly when the value as passed
  is the lone dash or its trimmed form is empty.
\<close>

theorem clean_value_null_iff:
  "clean_value val = None \<longleftrightarrow> val = [0x2D] \<or> strip_py val = []"
  by (auto simp: clean_value_def strip_py_def)

text \<open>A dash after a space trims to the lone dash and is kept.\<close>

theorem clean_value_null_counterexample:
  "strip_py [0x20, 0x2D] = [0x2D] \<and> clean_value [0x20, 0x2D] = Some [0x2D]"
  by (simp add: strip_py_def isspace_def clean_value_def apply_replacements_def replacements_def
        dict_literal_def replacements_literal_def)

lemma replacements_eq:
  "replacements =
     [([0xC3, 0xA1], [0xE1]), ([0xC3, 0xA9], [0xE9]), ([0xC3, 0xAD], [0xED]),
      ([0xC3, 0xB3], [0xF3]), ([0xC3, 0xBA], [0xFA]), ([0xC3, 0xB1], [0xF1]),
      ([0xC3], [0xD1]), ([0xC2], []), ([0xE2, 0x20AC, 0x201C], [0x2D]),
      ([0xE2, 0x20AC, 0x153], [0x22]), ([0xE2, 0x20AC], [0x22]),
      ([0xE2, 0x20AC, 0xA2], [0x2D]), ([0xE2, 0x20AC, 0xA6], [0x2E, 0x2E, 0x2E])]"
  by (simp add: replacements_def dict_literal_def replacements_literal_def)

lemma set_replace_py: "set (replace_py old new s) \<subseteq> set s \<union> set new"
proof (induction old new s rule: replace_py.induct)
  case (1 old new)
  then show ?case by auto
next
  case (2 old new c cs)
  show ?case
  proof (cases "old = []")
    case True
    with 2 show ?thesis by auto
  next
    case ne: False
    show ?thesis
    proof (cases "prefix old (c # cs)")
      case True
      have d: "set (drop (length old) (c # cs)) \<subseteq> set (c # cs)" by (rule set_drop_subset)
      have e: "replace_py old new (c # cs) = new @ replace_py old new (drop (length old) (c # cs))"
        using ne True by simp
      from 2(2) [OF ne True] d show ?thesis unfolding e by auto
    next
      case False
      have e: "replace_py old new (c # cs) = c # replace_py old new cs"
        using ne False by simp
      from 2(3) [OF ne False] show ?thesis unfolding e by auto
    qed
  qed
qed

lemma replace_py_absent:
  "old \<noteq> [] \<Longrightarrow> \<not> sublist old s \<Longrightarrow> replace_py old new s = s"
proof (induction s)
  case Nil
  then show ?case by simp
next
  case (Cons c cs)
  then show ?case by (auto simp: sublist_Cons_right)
qed

lemma replace_py_head_absent:
  "c \<notin> set s \<Longrightarrow> replace_py (c # k) new s = s"
proof (rule replace_py_absent)
  assume "c \<notin> set s"
  then show "\<not> sublist (c # k) s"
    by (auto simp: sublist_def)
qed simp

lemma replace_py_single_gone:
  "a \<notin> set new \<Longrightarrow> a \<notin> set (replace_py [a] new s)"
  by (induction s) auto

lemma prefix_single: "prefix [b] r \<longleftrightarrow> (\<exists>t. r = b # t)"
  by (cases r) auto

lemma replace_py_pair_gone_aux:
  assumes "q \<noteq> a" "q \<noteq> b"
  shows "\<not> sublist [a, b] (replace_py [a, b] [q] s) \<and>
         (prefix [b] (replace_py [a, b] [q] s) \<longrightarrow> prefix [b] s)"
proof (induction "[a, b]" "[q]" s rule: replace_py.induct)
  case 1
  then show ?case by simp
next
  case (2 c cs)
  show ?case
  proof (cases "prefix [a, b] (c # cs)")
    case True
    then obtain t where t: "c = a" "cs = b # t" by (auto simp: prefix_def)
    from 2(2) True t have ih: "\<not> sublist [a, b] (replace_py [a, b] [q] t)" by simp
    have e: "replace_py [a, b] [q] (c # cs) = q # replace_py [a, b] [q] t"
      using t by simp
    show ?thesis unfolding e using ih assms by (simp add: sublist_Cons_right)
  next
    case False
    from 2(3) False have ih: "\<not> sublist [a, b] (replace_py [a, b] [q] cs)"
      "prefix [b] (replace_py [a, b] [q] cs) \<longrightarrow> prefix [b] cs" by simp_all
    have e: "replace_py [a, b] [q] (c # cs) = c # replace_py [a, b] [q] cs"
      using False by (simp del: Cons_prefix_Cons)
    have np: "\<not> (a = c \<and> prefix [b] cs)" using False by simp
    show ?thesis unfolding e using ih np by (auto simp: sublist_Cons_right)
  qed
qed

lemma replace_py_pair_gone:
  "q \<noteq> a \<Longrightarrow> q \<noteq> b \<Longrightarrow> \<not> sublist [a, b] (replace_py [a, b] [q] s)"
  using replace_py_pair_gone_aux [of q a b s] by simp

lemma replace_py_longer_absent:
  assumes "\<not> sublist [a, b] s"
  shows "replace_py (a # b # k) new s = s"
proof (rule replace_py_absent)
  show "\<not> sublist (a # b # k) s"
  proof
    assume "sublist (a # b # k) s"
    then obtain ps ss where "s = ps @ (a # b # k) @ ss" by (auto simp: sublist_def)
    then have "s = ps @ [a, b] @ (k @ ss)" by simp
    then have "sublist [a, b] s" by (simp only: sublist_appendI)
    with assms show False by simp
  qed
qed simp


lemma replace_py_keeps_absent:
  "a \<notin> set s \<Longrightarrow> a \<notin> set new \<Longrightarrow> a \<notin> set (replace_py old new s)"
  using set_replace_py [of old new s] by auto

lemma apply_replacements_steps:
  "apply_replacements replacements s =
     replace_py [0xE2, 0x20AC, 0xA6] [0x2E, 0x2E, 0x2E]
      (replace_py [0xE2, 0x20AC, 0xA2] [0x2D]
        (replace_py [0xE2, 0x20AC] [0x22]
          (replace_py [0xE2, 0x20AC, 0x153] [0x22]
            (replace_py [0xE2, 0x20AC, 0x201C] [0x2D]
              (replace_py [0xC2] []
                (replace_py [0xC3] [0xD1]
                  (replace_py [0xC3, 0xB1] [0xF1]
                    (replace_py [0xC3, 0xBA] [0xFA]
                      (replace_py [0xC3, 0xB3] [0xF3]
                        (replace_py [0xC3, 0xAD] [0xED]
                          (replace_py [0xC3, 0xA9] [0xE9]
                            (replace_py [0xC3, 0xA1] [0xE1] s))))))))))))"
  by (simp add: apply_replacements_def replacements_eq)

lemma apply_replacements_fixed:
  assumes "0xC3 \<notin> set s" "0xC2 \<notin> set s" "\<not> sublist [0xE2, 0x20AC] s"
  shows "apply_replacements replacements s = s"
  unfolding apply_replacements_steps
  using assms
  by (simp add: replace_py_head_absent replace_py_longer_absent replace_py_absent)

lemma apply_replacements_clean:
  "0xC3 \<notin> set (apply_replacements replacements s) \<and>
   0xC2 \<notin> set (apply_replacements replacements s) \<and>
   \<not> sublist [0xE2, 0x20AC] (apply_replacements replacements s)"
proof -
  define s6 :: pystr where "s6 = replace_py [0xC3, 0xB1] [0xF1]
                    (replace_py [0xC3, 0xBA] [0xFA]
                      (replace_py [0xC3, 0xB3] [0xF3]
                        (replace_py [0xC3, 0xAD] [0xED]
                          (replace_py [0xC3, 0xA9] [0xE9]
                            (replace_py [0xC3, 0xA1] [0xE1] s)))))"
  define s7 where "s7 = replace_py [0xC3] [0xD1] s6"
  define s8 where "s8 = replace_py [0xC2] [] s7"
  define s9 where "s9 = replace_py [0xE2, 0x20AC, 0x201C] [0x2D] s8"
  define s10 where "s10 = replace_py [0xE2, 0x20AC, 0x153] [0x22] s9"
  define s11 where "s11 = replace_py [0xE2, 0x20AC] [0x22] s10"
  have a7: "0xC3 \<notin> set s7" unfolding s7_def by (rule replace_py_single_gone) simp
  have a8: "0xC3 \<notin> set s8" unfolding s8_def using a7 by (rule replace_py_keeps_absent) simp
  have b8: "0xC2 \<notin> set s8" unfolding s8_def by (rule replace_py_single_gone) simp
  have a9: "0xC3 \<notin> set s9" unfolding s9_def using a8 by (rule replace_py_keeps_absent) simp
  have b9: "0xC2 \<notin> set s9" unfolding s9_def using b8 by (rule replace_py_keeps_absent) simp
  have a10: "0xC3 \<notin> set s10" unfolding s10_def using a9 by (rule replace_py_keeps_absent) simp
  have b10: "0xC2 \<notin> set s10" unfolding s10_def using b9 by (rule replace_py_keeps_absent) simp
  have a11: "0xC3 \<notin> set s11" unfolding s11_def using a10 by (rule replace_py_keeps_absent) simp
  have b11: "0xC2 \<notin> set s11" unfolding s11_def using b10 by (rule replace_py_keeps_absent) simp
  have c11: "\<not> sublist [0xE2, 0x20AC] s11" unfolding s11_def by (rule replace_py_pair_gone) simp_all
  have "apply_replacements replacements s =
          replace_py [0xE2, 0x20AC, 0xA6] [0x2E, 0x2E, 0x2E] (replace_py [0xE2, 0x20AC, 0xA2] [0x2D] s11)"
    unfolding apply_replacements_steps s11_def s10_def s9_def s8_def s7_def s6_def ..
  also have "\<dots> = s11"
    using c11 by (simp add: replace_py_longer_absent)
  finally show ?thesis using a11 b11 c11 by simp
qed

lemma apply_replacements_idem:
  "apply_replacements replacements (apply_replacements replacements s) = apply_replacements replacements s"
  using apply_replacements_clean [of s] by (intro apply_replacements_fixed) simp_all

text \<open>
  Claim C6, as the code has it. The substitution pass is idempotent, and cleaning its
  own result \<open>y\<close> gives \<open>y\<close> again whenever \<open>y\<close> is not empty, is not the lone dash and has
  no whitespace at either end.
\<close>

theorem clean_value_twice:
  "apply_replacements replacements (apply_replacements replacements s) = apply_replacements replacements s \<and>
   (clean_value x = Some y \<and> strip_py y = y \<and> y \<noteq> [] \<and> y \<noteq> [0x2D] \<longrightarrow> clean_value y = Some y)"
proof -
  have "clean_value y = Some y" if h: "clean_value x = Some y" "strip_py y = y" "y \<noteq> []" "y \<noteq> [0x2D]"
  proof -
    from h(1) have y: "y = apply_replacements replacements (strip_py x)"
      by (auto simp: clean_value_def split: if_splits)
    have "apply_replacements replacements y = y"
      unfolding y by (rule apply_replacements_idem)
    with h(2,3,4) show ?thesis by (simp add: clean_value_def)
  qed
  then show ?thesis using apply_replacements_idem by blast
qed

theorem clean_value_twice_witness:
  "clean_value [0x41, 0xC3, 0xB1, 0x6F] = Some [0x41, 0xF1, 0x6F] \<and>
   strip_py [0x41, 0xF1, 0x6F] = [0x41, 0xF1, 0x6F] \<and>
   clean_value [0x41, 0xF1, 0x6F] = Some [0x41, 0xF1, 0x6F]"
proof -
  have a: "clean_value [0x41, 0xC3, 0xB1, 0x6F] = Some [0x41, 0xF1, 0x6F]"
    by (simp add: clean_value_def strip_py_def isspace_def apply_replacements_def replacements_eq)
  have b: "strip_py [0x41, 0xF1, 0x6F] = [0x41, 0xF1, 0x6F]"
    by (simp add: strip_py_def isspace_def)
  from clean_value_twice [of "[0x41, 0xF1, 0x6F]" "[0x41, 0xC3, 0xB1, 0x6F]" "[0x41, 0xF1, 0x6F]"] a b
  show ?thesis by simp
qed

text \<open>
  The mojibake of a no-break space: dropping U+00C2 uncovers U+00A0 at the front, which
  the second cleaning trims.
\<close>

theorem clean_value_twice_counterexample:
  "clean_value [0xC2, 0xA0, 0x58] = Some [0xA0, 0x58] \<and> clean_value [0xA0, 0x58] = Some [0x58]"
  by (simp add: clean_value_def strip_py_def isspace_def apply_replacements_def replacements_eq)


section \<open>Properties of encoding detection\<close>

lemma sample_lines_Nil: "sample_lines n [] = False"
  by (induction n) simp_all

lemma sample_lines_Cons:
  "sample_lines (Suc n) (c # cs) =
     (if c = 0x0A then sample_lines n cs else if c = 0x7C then True else sample_lines (Suc n) cs)"
  by (cases "readline cs") auto

lemma sample_newline_head:
  assumes "\<And>m cr'. sample_lines m (translate_newlines cr' t) = sample_lines m (translate_newlines cr' u)"
  shows "sample_lines n (translate_newlines cr (c # t)) = sample_lines n (translate_newlines cr (c # u))"
proof (cases n)
  case 0
  then show ?thesis by simp
next
  case (Suc m)
  show ?thesis
    unfolding Suc using assms [of m] assms [of "Suc m"]
    by (simp add: sample_lines_Cons del: sample_lines.simps)
qed

lemma sample_plain_skip:
  assumes "c \<noteq> 0x0A" "c \<noteq> 0x0D" "c \<noteq> 0x7C"
  shows "sample_lines n (translate_newlines cr (c # t)) = sample_lines n (translate_newlines False t)"
proof (cases n)
  case 0
  then show ?thesis by simp
next
  case (Suc m)
  show ?thesis
    unfolding Suc using assms by (simp add: sample_lines_Cons del: sample_lines.simps)
qed

lemma sample_high_skip:
  "0x80 \<le> c \<Longrightarrow> sample_lines n (translate_newlines cr (c # t)) = sample_lines n (translate_newlines False t)"
  by (rule sample_plain_skip) simp_all

lemma bad_strict: "bad Strict x = None"
  by (simp add: bad_def)

lemma emit_Some: "emit c x = Some t \<longleftrightarrow> (\<exists>t'. x = Some t' \<and> t = c # t')"
  by (cases x) (auto simp: emit_def)

lemma cp1252_high:
  assumes "cp1252_table b = Some c" "0x80 \<le> b"
  shows "0x80 \<le> c"
proof (cases "0xA0 \<le> b")
  case True
  with assms show ?thesis by (simp add: cp1252_table_def)
next
  case False
  with assms have "(b, c) \<in> set
        [(0x80, 0x20AC), (0x82, 0x201A), (0x83, 0x0192), (0x84, 0x201E), (0x85, 0x2026),
         (0x86, 0x2020), (0x87, 0x2021), (0x88, 0x02C6), (0x89, 0x2030), (0x8A, 0x0160),
         (0x8B, 0x2039), (0x8C, 0x0152), (0x8E, 0x017D), (0x91, 0x2018), (0x92, 0x2019),
         (0x93, 0x201C), (0x94, 0x201D), (0x95, 0x2022), (0x96, 0x2013), (0x97, 0x2014),
         (0x98, 0x02DC), (0x99, 0x2122), (0x9A, 0x0161), (0x9B, 0x203A), (0x9C, 0x0153),
         (0x9E, 0x017E), (0x9F, 0x0178 :: nat)]"
    by (intro map_of_SomeD) (simp add: cp1252_table_def)
  then show ?thesis by auto
qed

lemma cp1252_low: "cp1252_table b = Some c \<Longrightarrow> b < 0x80 \<Longrightarrow> c = b"
  by (simp add: cp1252_table_def)

lemma cp1252_sample:
  "cp1252_decode Strict bs = Some t \<Longrightarrow>
   sample_lines n (translate_newlines cr t) = sample_lines n (translate_newlines cr bs)"
proof (induction bs arbitrary: t n cr)
  case Nil
  then show ?case by simp
next
  case (Cons b bs)
  from Cons.prems obtain c t' where c: "cp1252_table b = Some c"
    and t': "cp1252_decode Strict bs = Some t'" and t: "t = c # t'"
    by (auto simp: bad_strict emit_Some split: option.splits)
  have ih: "sample_lines m (translate_newlines cr' t') = sample_lines m (translate_newlines cr' bs)" for m cr'
    by (rule Cons.IH [OF t'])
  show ?case
  proof (cases "b < 0x80")
    case True
    with c have "c = b" by (rule cp1252_low)
    then have "t = b # t'" using t by simp
    then show ?thesis using sample_newline_head [of t' bs n cr b, OF ih] by simp
  next
    case False
    then have hb: "0x80 \<le> b" by simp
    with c have hc: "0x80 \<le> c" by (rule cp1252_high)
    show ?thesis
      unfolding t by (simp only: sample_high_skip [OF hc] sample_high_skip [OF hb] ih)
  qed
qed


lemma utf8_strict_Cons:
  assumes "utf8_decode Strict (b # bs) = Some t"
  obtains (ascii) t' where "b < 0x80" "utf8_decode Strict bs = Some t'" "t = b # t'"
  | (two) c1 r c t' where "bs = c1 # r" "0x80 \<le> b" "0x80 \<le> c1" "0x80 \<le> c"
      "utf8_decode Strict r = Some t'" "t = c # t'"
  | (three) c1 c2 r c t' where "bs = c1 # c2 # r" "0x80 \<le> b" "0x80 \<le> c1" "0x80 \<le> c2" "0x80 \<le> c"
      "utf8_decode Strict r = Some t'" "t = c # t'"
  | (four) c1 c2 c3 r c t' where "bs = c1 # c2 # c3 # r" "0x80 \<le> b" "0x80 \<le> c1" "0x80 \<le> c2"
      "0x80 \<le> c3" "0x80 \<le> c" "utf8_decode Strict r = Some t'" "t = c # t'"
proof -
  consider "b < 0x80" | "0xC2 \<le> b \<and> b \<le> 0xDF" | "0xE0 \<le> b \<and> b \<le> 0xEF" | "0xF0 \<le> b \<and> b \<le> 0xF4"
    | "\<not> b < 0x80 \<and> \<not> (0xC2 \<le> b \<and> b \<le> 0xDF) \<and> \<not> (0xE0 \<le> b \<and> b \<le> 0xEF) \<and> \<not> (0xF0 \<le> b \<and> b \<le> 0xF4)"
    by linarith
  then show thesis
  proof cases
    case 1
    with assms obtain t' where "utf8_decode Strict bs = Some t'" "t = b # t'"
      by (auto simp: emit_Some)
    with 1 show ?thesis by (rule ascii)
  next
    case 2
    with assms obtain c1 r where bs: "bs = c1 # r"
      by (cases bs) (auto simp: bad_strict)
    from assms 2 bs have c1: "cont c1"
      by (auto simp: bad_strict split: if_splits)
    from assms 2 bs c1 obtain t' where t': "utf8_decode Strict r = Some t'"
      "t = ((b - 0xC0) * 64 + (c1 - 0x80)) # t'"
      by (auto simp: emit_Some)
    have "0x80 \<le> (b - 0xC0) * 64 + (c1 - 0x80)" using 2 by linarith
    moreover have "0x80 \<le> b" "0x80 \<le> c1" using 2 c1 by (simp_all add: cont_def)
    ultimately show ?thesis using bs t' by (intro two [of c1 r _ t']) simp_all
  next
    case 3
    with assms obtain c1 r1 where bs: "bs = c1 # r1"
      by (cases bs) (auto simp: bad_strict)
    from assms 3 bs have s: "second3 b c1"
      by (auto simp: bad_strict split: if_splits)
    with assms 3 bs obtain c2 r where r1: "r1 = c2 # r"
      by (cases r1) (auto simp: bad_strict)
    from assms 3 bs s r1 have c2: "cont c2"
      by (auto simp: bad_strict split: if_splits)
    from assms 3 bs s r1 c2 obtain t' where t': "utf8_decode Strict r = Some t'"
      "t = ((b - 0xE0) * 4096 + (c1 - 0x80) * 64 + (c2 - 0x80)) # t'"
      by (auto simp: emit_Some)
    have h1: "0x80 \<le> c1" using s by (auto simp: second3_def cont_def split: if_splits)
    have "b = 0xE0 \<and> 0xA0 \<le> c1 \<or> 0xE1 \<le> b"
      using s 3 by (auto simp: second3_def split: if_splits)
    then have "0x80 \<le> (b - 0xE0) * 4096 + (c1 - 0x80) * 64 + (c2 - 0x80)" by linarith
    moreover have "0x80 \<le> b" "0x80 \<le> c2" using 3 c2 by (simp_all add: cont_def)
    ultimately show ?thesis using bs r1 t' h1 by (intro three [of c1 c2 r _ t']) simp_all
  next
    case 4
    with assms obtain c1 r1 where bs: "bs = c1 # r1"
      by (cases bs) (auto simp: bad_strict)
    from assms 4 bs have s: "second4 b c1"
      by (auto simp: bad_strict split: if_splits)
    with assms 4 bs obtain c2 r2 where r1: "r1 = c2 # r2"
      by (cases r1) (auto simp: bad_strict)
    from assms 4 bs s r1 have c2: "cont c2"
      by (auto simp: bad_strict split: if_splits)
    with assms 4 bs s r1 obtain c3 r where r2: "r2 = c3 # r"
      by (cases r2) (auto simp: bad_strict)
    from assms 4 bs s r1 c2 r2 have c3: "cont c3"
      by (auto simp: bad_strict split: if_splits)
    from assms 4 bs s r1 c2 r2 c3 obtain t' where t': "utf8_decode Strict r = Some t'"
      "t = ((b - 0xF0) * 262144 + (c1 - 0x80) * 4096 + (c2 - 0x80) * 64 + (c3 - 0x80)) # t'"
      by (auto simp: emit_Some)
    have h1: "0x80 \<le> c1" using s by (auto simp: second4_def cont_def split: if_splits)
    have "b = 0xF0 \<and> 0x90 \<le> c1 \<or> 0xF1 \<le> b"
      using s 4 by (auto simp: second4_def split: if_splits)
    then have "0x80 \<le> (b - 0xF0) * 262144 + (c1 - 0x80) * 4096 + (c2 - 0x80) * 64 + (c3 - 0x80)" by linarith
    moreover have "0x80 \<le> b" "0x80 \<le> c2" "0x80 \<le> c3" using 4 c2 c3 by (simp_all add: cont_def)
    ultimately show ?thesis using bs r1 r2 t' h1 by (intro four [of c1 c2 c3 r _ t']) simp_all
  next
    case 5
    with assms show ?thesis by (simp add: bad_strict)
  qed
qed

lemma utf8_sample:
  "utf8_decode Strict bs = Some t \<Longrightarrow>
   sample_lines n (translate_newlines cr t) = sample_lines n (translate_newlines cr bs)"
proof (induction bs arbitrary: t n cr rule: length_induct)
  case (1 bs)
  show ?case
  proof (cases bs)
    case Nil
    with 1 show ?thesis by simp
  next
    case (Cons b rest)
    with 1(2) have dec: "utf8_decode Strict (b # rest) = Some t" by simp
    from dec show ?thesis
    proof (cases rule: utf8_strict_Cons)
      case (ascii t')
      have ih: "sample_lines m (translate_newlines cr' t') = sample_lines m (translate_newlines cr' rest)" for m cr'
        using 1(1) ascii(2) Cons by simp
      show ?thesis
        unfolding Cons ascii(3) by (rule sample_newline_head) (rule ih)
    next
      case (two c1 r c t')
      have ih: "sample_lines n (translate_newlines False t') = sample_lines n (translate_newlines False r)"
        using 1(1) two(1,5) Cons by simp
      show ?thesis
        unfolding Cons two(1) two(6)
        by (simp only: sample_high_skip [OF two(2)] sample_high_skip [OF two(3)] sample_high_skip [OF two(4)] ih)
    next
      case (three c1 c2 r c t')
      have ih: "sample_lines n (translate_newlines False t') = sample_lines n (translate_newlines False r)"
        using 1(1) three(1,6) Cons by simp
      show ?thesis
        unfolding Cons three(1) three(7)
        by (simp only: sample_high_skip [OF three(2)] sample_high_skip [OF three(3)]
            sample_high_skip [OF three(4)] sample_high_skip [OF three(5)] ih)
    next
      case (four c1 c2 c3 r c t')
      have ih: "sample_lines n (translate_newlines False t') = sample_lines n (translate_newlines False r)"
        using 1(1) four(1,7) Cons by simp
      show ?thesis
        unfolding Cons four(1) four(8)
        by (simp only: sample_high_skip [OF four(2)] sample_high_skip [OF four(3)]
            sample_high_skip [OF four(4)] sample_high_skip [OF four(5)] sample_high_skip [OF four(6)] ih)
    qed
  qed
qed


lemma open_latin1:
  "open_text Latin1 e (Some bytes) = Some (translate_newlines False (map unat bytes))"
  "open_text Iso8859_1 e (Some bytes) = Some (translate_newlines False (map unat bytes))"
  by (simp_all add: open_text_def decode_def)

lemma open_other_sample:
  assumes "open_text enc Strict (Some bytes) = Some f"
  shows "sample_lines n f = sample_lines n (translate_newlines False (map unat bytes))"
proof (cases enc)
  case Latin1
  with assms show ?thesis by (simp add: open_latin1)
next
  case Iso8859_1
  with assms show ?thesis by (simp add: open_latin1)
next
  case Cp1252
  with assms obtain t where "cp1252_decode Strict (map unat bytes) = Some t" "f = translate_newlines False t"
    by (auto simp: open_text_def decode_def)
  then show ?thesis by (simp add: cp1252_sample)
next
  case Utf8
  with assms obtain t where "utf8_decode Strict (map unat bytes) = Some t" "f = translate_newlines False t"
    by (auto simp: open_text_def decode_def)
  then show ?thesis by (simp add: utf8_sample)
qed

lemma try_encodings_missed:
  "\<not> sample_lines 5 (translate_newlines False (map unat bytes)) \<Longrightarrow> try_encodings (Some bytes) encs = None"
proof (induction encs)
  case Nil
  then show ?case by simp
next
  case (Cons enc encs)
  show ?case
  proof (cases "open_text enc Strict (Some bytes)")
    case None
    with Cons show ?thesis by simp
  next
    case (Some f)
    from open_other_sample [OF Some, of 5] Cons.prems have "\<not> sample_lines 5 f" by simp
    with Some Cons show ?thesis by simp
  qed
qed

lemma try_encodings_absent: "try_encodings None encs = None"
  by (induction encs) (simp_all add: open_text_def)

lemma detect_encoding_latin1: "detect_encoding src = Latin1"
proof (cases src)
  case None
  then show ?thesis by (simp only: detect_encoding_def try_encodings_absent option.case)
next
  case (Some bytes)
  show ?thesis
  proof (cases "sample_lines 5 (translate_newlines False (map unat bytes))")
    case True
    then show ?thesis
      unfolding Some detect_encoding_def by (simp add: open_latin1)
  next
    case False
    then have "try_encodings (Some bytes) [Latin1, Iso8859_1, Cp1252, Utf8] = None"
      by (rule try_encodings_missed)
    then show ?thesis
      unfolding Some detect_encoding_def by (simp only: option.case)
  qed
qed

section \<open>Properties of the table and of batch insertion\<close>

lemma execute_insert_fst:
  "fst (execute_insert flt r d) \<longleftrightarrow> length r = 15 \<and> \<not> flt (tick d)"
  by (simp add: execute_insert_def)

lemma execute_insert_live:
  "live (snd (execute_insert flt r d)) =
     (if length r = 15 \<and> \<not> flt (tick d) then insert_or_replace r (live d) else live d)"
  by (simp add: execute_insert_def)

lemma execute_insert_durable: "durable (snd (execute_insert flt r d)) = durable d"
  by (simp add: execute_insert_def)

lemma execute_insert_tick: "tick (snd (execute_insert flt r d)) = Suc (tick d)"
  by (simp add: execute_insert_def)

lemma execute_insert_in_tx: "in_tx d \<Longrightarrow> in_tx (snd (execute_insert flt r d))"
  by (simp add: execute_insert_def)

lemma executemany_step:
  "executemany flt (r # rs) d =
     (if fst (execute_insert flt r d) then executemany flt rs (snd (execute_insert flt r d))
      else (False, snd (execute_insert flt r d)))"
  by (cases "execute_insert flt r d") (auto split: bool.splits)

lemma one_by_one_step:
  "one_by_one flt (r # rs) d n =
     one_by_one flt rs (snd (execute_insert flt r d)) (if fst (execute_insert flt r d) then Suc n else n)"
  by (cases "execute_insert flt r d") (auto split: bool.splits)

lemma zip_upt_Cons:
  "zip (r # rs) [t..<t + length (r # rs)] = (r, t) # zip rs [Suc t..<Suc t + length rs]"
  by (simp add: upt_rec)

lemma one_by_one_result:
  "live (fst (one_by_one flt rs d n)) =
     foldl (\<lambda>t r. insert_or_replace r t) (live d)
       (map fst (filter (\<lambda>(r, i). length r = 15 \<and> \<not> flt i) (zip rs [tick d..<tick d + length rs]))) \<and>
   snd (one_by_one flt rs d n) =
     n + length (filter (\<lambda>(r, i). length r = 15 \<and> \<not> flt i) (zip rs [tick d..<tick d + length rs])) \<and>
   tick (fst (one_by_one flt rs d n)) = tick d + length rs \<and>
   durable (fst (one_by_one flt rs d n)) = durable d \<and>
   (in_tx d \<longrightarrow> in_tx (fst (one_by_one flt rs d n)))"
proof (induction rs arbitrary: d n)
  case Nil
  then show ?case by simp
next
  case (Cons r rs)
  let ?d = "snd (execute_insert flt r d)"
  let ?n = "if fst (execute_insert flt r d) then Suc n else n"
  note ih = Cons.IH [of ?d ?n]
  show ?case
    unfolding one_by_one_step zip_upt_Cons
    using ih
    by (simp add: execute_insert_fst execute_insert_live execute_insert_durable
        execute_insert_tick execute_insert_in_tx)
qed

lemma executemany_facts:
  "durable (snd (executemany flt rs d)) = durable d \<and>
   (in_tx d \<longrightarrow> in_tx (snd (executemany flt rs d))) \<and>
   tick d \<le> tick (snd (executemany flt rs d))"
proof (induction rs arbitrary: d)
  case Nil
  then show ?case by simp
next
  case (Cons r rs)
  from Cons.IH [of "snd (execute_insert flt r d)"]
  show ?case
    unfolding executemany_step
    by (auto simp: execute_insert_durable execute_insert_tick execute_insert_in_tx)
qed

lemma executemany_fail_nonempty: "\<not> fst (executemany flt rs d) \<Longrightarrow> rs \<noteq> []"
  by auto

lemma insert_batch_fallback:
  assumes "\<not> fst (executemany flt batch d)"
  shows "insert_batch flt batch d =
           (fst (one_by_one flt batch (snd (executemany flt batch d)) 0),
            Some (snd (one_by_one flt batch (snd (executemany flt batch d)) 0), length batch))"
proof -
  from assms have ne: "batch \<noteq> []" by (rule executemany_fail_nonempty)
  obtain b d1 where e: "executemany flt batch d = (b, d1)" by (cases "executemany flt batch d")
  with assms have b: "b = False" by simp
  obtain d2 m where o: "one_by_one flt batch d1 0 = (d2, m)" by (cases "one_by_one flt batch d1 0")
  show ?thesis using ne e b o by (simp add: insert_batch_def)
qed

lemma parse_line_length: "parse_line l = Some r \<Longrightarrow> length r = 15"
  by (auto simp: parse_line_def Let_def split: if_splits)

lemma map_filter_Nil: "List.map_filter f [] = []"
  by (simp add: List.map_filter_def)

lemma map_filter_Cons:
  "List.map_filter f (x # xs) = (case f x of None \<Rightarrow> List.map_filter f xs | Some y \<Rightarrow> y # List.map_filter f xs)"
  by (simp add: List.map_filter_def split: option.splits)

lemma map_filter_append: "List.map_filter f (xs @ ys) = List.map_filter f xs @ List.map_filter f ys"
  by (simp add: List.map_filter_def)

lemma map_filter_ruc_drop:
  "List.map_filter ruc (filter (\<lambda>q. ruc q \<noteq> Some k) rows) = filter (\<lambda>x. x \<noteq> k) (List.map_filter ruc rows)"
  by (induction rows) (auto split: option.splits)

lemma keys_insert_or_replace:
  assumes "distinct (List.map_filter ruc rows)"
  shows "distinct (List.map_filter ruc (insert_or_replace r rows))"
proof (cases "ruc r")
  case None
  with assms show ?thesis
    by (simp add: insert_or_replace_def map_filter_append map_filter_Cons map_filter_Nil)
next
  case (Some k)
  with assms show ?thesis
    by (simp add: insert_or_replace_def map_filter_append map_filter_Cons map_filter_Nil
        map_filter_ruc_drop)
qed

lemma keys_foldl:
  "distinct (List.map_filter ruc rows) \<Longrightarrow>
   distinct (List.map_filter ruc (foldl (\<lambda>t r. insert_or_replace r t) rows rs))"
  by (induction rs arbitrary: rows) (simp_all add: keys_insert_or_replace)

lemma keys_execute_insert:
  "distinct (List.map_filter ruc (live d)) \<Longrightarrow>
   distinct (List.map_filter ruc (live (snd (execute_insert flt r d))))"
  by (simp add: execute_insert_live keys_insert_or_replace)

lemma keys_executemany:
  "distinct (List.map_filter ruc (live d)) \<Longrightarrow>
   distinct (List.map_filter ruc (live (snd (executemany flt rs d))))"
proof (induction rs arbitrary: d)
  case Nil
  then show ?case by simp
next
  case (Cons r rs)
  from Cons.prems have "distinct (List.map_filter ruc (live (snd (execute_insert flt r d))))"
    by (rule keys_execute_insert)
  with Cons.IH show ?case
    unfolding executemany_step by simp
qed

lemma keys_one_by_one:
  "distinct (List.map_filter ruc (live d)) \<Longrightarrow>
   distinct (List.map_filter ruc (live (fst (one_by_one flt rs d n))))"
  using one_by_one_result [of flt rs d n] by (simp add: keys_foldl)

lemma executemany_clean:
  assumes nf: "\<And>n. \<not> flt n"
  shows "(\<And>r. r \<in> set rs \<Longrightarrow> length r = 15) \<Longrightarrow>
   fst (executemany flt rs d) \<and>
   live (snd (executemany flt rs d)) = foldl (\<lambda>t r. insert_or_replace r t) (live d) rs"
proof (induction rs arbitrary: d)
  case Nil
  then show ?case by simp
next
  case (Cons r rs)
  have len: "length r = 15" using Cons.prems by simp
  then have ok: "fst (execute_insert flt r d)"
    by (simp add: execute_insert_fst nf)
  have ih: "fst (executemany flt rs (snd (execute_insert flt r d))) \<and>
     live (snd (executemany flt rs (snd (execute_insert flt r d)))) =
       foldl (\<lambda>t r. insert_or_replace r t) (live (snd (execute_insert flt r d))) rs"
    by (rule Cons.IH) (simp add: Cons.prems)
  have l: "live (snd (execute_insert flt r d)) = insert_or_replace r (live d)"
    by (simp add: execute_insert_live len nf)
  show ?case
    unfolding executemany_step using ok ih l by simp
qed

lemma insert_batch_facts:
  "durable (fst (insert_batch flt b d)) = durable d \<and>
   (in_tx d \<longrightarrow> in_tx (fst (insert_batch flt b d))) \<and>
   (distinct (List.map_filter ruc (live d)) \<longrightarrow>
    distinct (List.map_filter ruc (live (fst (insert_batch flt b d)))))"
proof (cases "fst (executemany flt b d)")
  case True
  then have "insert_batch flt b d = (if b = [] then d else snd (executemany flt b d), None)"
    by (cases "executemany flt b d") (simp add: insert_batch_def)
  then show ?thesis
    using executemany_facts [of flt b d] keys_executemany [of d flt b] by simp
next
  case False
  let ?d1 = "snd (executemany flt b d)"
  from False have e: "fst (insert_batch flt b d) = fst (one_by_one flt b ?d1 0)"
    by (simp add: insert_batch_fallback)
  show ?thesis
    unfolding e
    using one_by_one_result [of flt b ?d1 0] executemany_facts [of flt b d]
      keys_one_by_one [of ?d1 flt b 0] keys_executemany [of d flt b]
    by simp
qed

lemma insert_batch_clean:
  assumes nf: "\<And>n. \<not> flt n" and len: "\<And>r. r \<in> set b \<Longrightarrow> length r = 15"
  shows "live (fst (insert_batch flt b d)) = foldl (\<lambda>t r. insert_or_replace r t) (live d) b"
proof -
  from executemany_clean [of flt b d, OF nf len]
  have ok: "fst (executemany flt b d)"
    and l: "live (snd (executemany flt b d)) = foldl (\<lambda>t r. insert_or_replace r t) (live d) b"
    by simp_all
  from ok have "insert_batch flt b d = (if b = [] then d else snd (executemany flt b d), None)"
    by (cases "executemany flt b d") (simp add: insert_batch_def)
  with l show ?thesis by auto
qed

section \<open>Properties of the load\<close>

lemma parse_line_nonempty: "parse_line l = Some r \<Longrightarrow> r \<noteq> []"
  using parse_line_length [of l r] by auto

lemma process_line_unfold:
  "process_line flt line (cv, d, p) =
     (let rs = batch_records p @ (case parse_line line of None \<Rightarrow> [] | Some r \<Rightarrow> [r]);
          errs = error_count p + (case parse_line line of None \<Rightarrow> 1 | Some r \<Rightarrow> 0)
      in if batch_size cv \<le> length rs
         then (cv\<lparr>total_records := total_records cv + length rs\<rparr>,
               fst (insert_batch flt rs d),
               \<lparr>batch_records = [], lines_processed = Suc (lines_processed p),
                batch_count = Suc (batch_count p), error_count = errs\<rparr>)
         else (cv, d,
               \<lparr>batch_records = rs, lines_processed = Suc (lines_processed p),
                batch_count = batch_count p, error_count = errs\<rparr>))"
proof (cases "parse_line line")
  case None
  show ?thesis
    by (cases "insert_batch flt (batch_records p) d")
       (simp add: process_line_def None Let_def)
next
  case (Some r)
  then have ne: "r \<noteq> []" by (rule parse_line_nonempty)
  show ?thesis
    by (cases "insert_batch flt (batch_records p @ [r]) d")
       (simp add: process_line_def Some ne Let_def)
qed

lemma process_line_facts:
  assumes "process_line flt line (cv, d, p) = (cv', d', p')"
  shows "batch_size cv' = batch_size cv"
    and "encoding cv' = encoding cv"
    and "durable d' = durable d"
    and "in_tx d \<Longrightarrow> in_tx d'"
    and "distinct (List.map_filter ruc (live d)) \<Longrightarrow> distinct (List.map_filter ruc (live d'))"
    and "lines_processed p' = Suc (lines_processed p)"
    and "error_count p' = error_count p + (case parse_line line of None \<Rightarrow> 1 | Some r \<Rightarrow> 0)"
    and "total_records cv' + length (batch_records p') =
         total_records cv + length (batch_records p) + (case parse_line line of None \<Rightarrow> 0 | Some r \<Rightarrow> 1)"
    and "(\<And>r. r \<in> set (batch_records p) \<Longrightarrow> length r = 15) \<Longrightarrow> r \<in> set (batch_records p') \<Longrightarrow> length r = 15"
  using assms insert_batch_facts [of flt "batch_records p @ (case parse_line line of None \<Rightarrow> [] | Some r \<Rightarrow> [r])" d]
  by (auto simp: process_line_unfold Let_def parse_line_length split: if_splits option.splits)

lemma process_line_clean:
  assumes "process_line flt line (cv, d, p) = (cv', d', p')"
    and nf: "\<And>n. \<not> flt n"
    and len: "\<And>r. r \<in> set (batch_records p) \<Longrightarrow> length r = 15"
  shows "foldl (\<lambda>t r. insert_or_replace r t) (live d') (batch_records p') =
         foldl (\<lambda>t r. insert_or_replace r t) (live d)
           (batch_records p @ (case parse_line line of None \<Rightarrow> [] | Some r \<Rightarrow> [r]))"
proof -
  let ?rs = "batch_records p @ (case parse_line line of None \<Rightarrow> [] | Some r \<Rightarrow> [r])"
  have l15: "length r = 15" if "r \<in> set ?rs" for r
    using that len by (auto simp: parse_line_length split: option.splits)
  have "live (fst (insert_batch flt ?rs d)) = foldl (\<lambda>t r. insert_or_replace r t) (live d) ?rs"
    by (rule insert_batch_clean [OF nf l15])
  with assms(1) show ?thesis
    by (auto simp: process_line_unfold Let_def split: if_splits)
qed

lemma load_loop_facts:
  assumes "load_loop ev lines n (cv, d, p) = (x, cv', d', p')"
  shows "batch_size cv' = batch_size cv \<and> encoding cv' = encoding cv \<and> durable d' = durable d \<and>
         (in_tx d \<longrightarrow> in_tx d') \<and>
         (distinct (List.map_filter ruc (live d)) \<longrightarrow> distinct (List.map_filter ruc (live d')))"
  using assms
proof (induction lines arbitrary: n cv d p)
  case Nil
  then show ?case by simp
next
  case (Cons line rest)
  show ?case
  proof (cases "signal ev n")
    case Quiet
    obtain cv1 d1 p1 where st: "process_line (fault ev) line (cv, d, p) = (cv1, d1, p1)"
      by (cases "process_line (fault ev) line (cv, d, p)") auto
    from Cons.prems Quiet st have "load_loop ev rest (Suc n) (cv1, d1, p1) = (x, cv', d', p')"
      by simp
    from Cons.IH [OF this] process_line_facts(1-5) [OF st]
    show ?thesis by simp
  next
    case IOFailure
    with Cons.prems show ?thesis by simp
  next
    case CtrlC
    with Cons.prems show ?thesis by simp
  qed
qed

lemma load_loop_done:
  assumes "load_loop ev lines n (cv, d, p) = (None, cv', d', p')"
    and "\<And>r. r \<in> set (batch_records p) \<Longrightarrow> length r = 15"
  shows "lines_processed p' = lines_processed p + length lines \<and>
         error_count p' = error_count p + length (filter (\<lambda>l. parse_line l = None) lines) \<and>
         total_records cv' + length (batch_records p') =
           total_records cv + length (batch_records p) + length (List.map_filter parse_line lines) \<and>
         (\<forall>r \<in> set (batch_records p'). length r = 15) \<and>
         ((\<forall>n. \<not> fault ev n) \<longrightarrow>
            foldl (\<lambda>t r. insert_or_replace r t) (live d') (batch_records p') =
            foldl (\<lambda>t r. insert_or_replace r t) (live d) (batch_records p @ List.map_filter parse_line lines))"
  using assms
proof (induction lines arbitrary: n cv d p)
  case Nil
  then show ?case by (simp add: map_filter_Nil)
next
  case (Cons line rest)
  show ?case
  proof (cases "signal ev n")
    case Quiet
    obtain cv1 d1 p1 where st: "process_line (fault ev) line (cv, d, p) = (cv1, d1, p1)"
      by (cases "process_line (fault ev) line (cv, d, p)") auto
    from Cons.prems(1) Quiet st have run: "load_loop ev rest (Suc n) (cv1, d1, p1) = (None, cv', d', p')"
      by simp
    have l1: "length r = 15" if "r \<in> set (batch_records p1)" for r
      using process_line_facts(9) [OF st Cons.prems(2) that] by simp
    note ih = Cons.IH [OF run l1]
    note f = process_line_facts(6-8) [OF st]
    have cl: "foldl (\<lambda>t r. insert_or_replace r t) (live d') (batch_records p') =
            foldl (\<lambda>t r. insert_or_replace r t) (live d)
              (batch_records p @ List.map_filter parse_line (line # rest))"
      if nf: "\<forall>n. \<not> fault ev n"
    proof -
      from nf have nf': "\<not> fault ev m" for m by simp
      from ih nf have "foldl (\<lambda>t r. insert_or_replace r t) (live d') (batch_records p') =
            foldl (\<lambda>t r. insert_or_replace r t) (live d1) (batch_records p1 @ List.map_filter parse_line rest)"
        by blast
      also have "\<dots> = foldl (\<lambda>t r. insert_or_replace r t)
             (foldl (\<lambda>t r. insert_or_replace r t) (live d1) (batch_records p1))
             (List.map_filter parse_line rest)"
        by simp
      also have "foldl (\<lambda>t r. insert_or_replace r t) (live d1) (batch_records p1) =
         foldl (\<lambda>t r. insert_or_replace r t) (live d)
           (batch_records p @ (case parse_line line of None \<Rightarrow> [] | Some r \<Rightarrow> [r]))"
        by (rule process_line_clean [OF st nf' Cons.prems(2)])
      finally show ?thesis
        by (simp add: map_filter_Cons split: option.splits)
    qed
    have a: "lines_processed p' = lines_processed p + length (line # rest)"
      using ih f by simp
    have b: "error_count p' = error_count p + length (filter (\<lambda>l. parse_line l = None) (line # rest))"
      using ih f by (simp split: option.splits)
    have c: "total_records cv' + length (batch_records p') =
           total_records cv + length (batch_records p) + length (List.map_filter parse_line (line # rest))"
      using ih f by (simp add: map_filter_Cons split: option.splits)
    have e: "\<forall>r \<in> set (batch_records p'). length r = 15"
      using ih by simp
    show ?thesis using a b c e cl by blast
  next
    case IOFailure
    with Cons.prems show ?thesis by simp
  next
    case CtrlC
    with Cons.prems show ?thesis by simp
  qed
qed


lemma flush_rest_facts:
  assumes "flush_rest flt (cv, d, p) = (cv', d')"
  shows "total_records cv' = total_records cv + length (batch_records p)"
    and "batch_size cv' = batch_size cv"
    and "durable d' = durable d"
    and "in_tx d \<Longrightarrow> in_tx d'"
    and "distinct (List.map_filter ruc (live d)) \<Longrightarrow> distinct (List.map_filter ruc (live d'))"
  using assms insert_batch_facts [of flt "batch_records p" d]
  by (auto simp: flush_rest_def split: if_splits prod.splits)

lemma flush_rest_clean:
  assumes "flush_rest flt (cv, d, p) = (cv', d')"
    and nf: "\<And>n. \<not> flt n"
    and len: "\<And>r. r \<in> set (batch_records p) \<Longrightarrow> length r = 15"
  shows "live d' = foldl (\<lambda>t r. insert_or_replace r t) (live d) (batch_records p)"
  using assms(1) insert_batch_clean [of flt "batch_records p" d, OF nf len]
  by (auto simp: flush_rest_def split: if_splits prod.splits)




lemma insert_fresh_key:
  assumes "ruc x = Some k" "Some k \<notin> ruc ` set rows"
  shows "insert_or_replace x rows = rows @ [x]"
proof -
  have "ruc q \<noteq> Some k" if "q \<in> set rows" for q
    using that assms(2) by force
  then have "filter (\<lambda>q. ruc q \<noteq> Some k) rows = rows"
    by (simp add: filter_id_conv)
  with assms(1) show ?thesis by (simp add: insert_or_replace_def)
qed

lemma foldl_insert_distinct:
  "distinct (map ruc recs) \<Longrightarrow> None \<notin> ruc ` set recs \<Longrightarrow> ruc ` set rows \<inter> ruc ` set recs = {} \<Longrightarrow>
   foldl (\<lambda>t r. insert_or_replace r t) rows recs = rows @ recs"
proof (induction recs arbitrary: rows)
  case Nil
  then show ?case by simp
next
  case (Cons x recs)
  from Cons.prems(2) obtain k where k: "ruc x = Some k" by (cases "ruc x") auto
  from Cons.prems(3) k have fresh: "Some k \<notin> ruc ` set rows" by auto
  have i: "insert_or_replace x rows = rows @ [x]"
    by (rule insert_fresh_key [OF k fresh])
  have d: "distinct (map ruc recs)" using Cons.prems(1) by simp
  have n: "None \<notin> ruc ` set recs" using Cons.prems(2) by auto
  have j: "ruc ` set (rows @ [x]) \<inter> ruc ` set recs = {}"
    using Cons.prems(1,3) by auto
  from Cons.IH [OF d n j] i show ?case by simp
qed

lemma length_map_filter_compl:
  "length (List.map_filter f xs) + length (filter (\<lambda>x. f x = None) xs) = length xs"
  by (induction xs) (auto split: option.splits)

lemma fresh_database: "create_table (connect_db rows) = \<lparr>live = [], durable = [], in_tx = False, tick = 0\<rparr>"
  by (simp add: create_table_def connect_db_def autocommit_def commit_def)

lemma main_finished:
  assumes "main ev = Finished res cv' d'"
  shows "\<exists>bs d. (bs = 15000 \<or> bs = 30000) \<and>
           load_data ev \<lparr>batch_size = bs, total_records = 0, encoding = detect_encoding (txt_file ev)\<rparr>
             \<lparr>live = [], durable = [], in_tx = False, tick = 0\<rparr> = (res, cv', d) \<and> d' = close d"
  using assms
  by (auto simp: main_def check_memory_def Let_def fresh_database split: if_splits prod.splits)

section \<open>Properties of a whole run\<close>

lemma load_loop_raises:
  "\<exists>k. n \<le> k \<and> k < n + length lines \<and> signal ev k \<noteq> Quiet \<Longrightarrow> fst (load_loop ev lines n st) \<noteq> None"
proof (induction lines arbitrary: n st)
  case Nil
  then show ?case by auto
next
  case (Cons line rest)
  show ?case
  proof (cases "signal ev n")
    case Quiet
    from Cons.prems obtain k where k: "n \<le> k" "k < n + length (line # rest)" "signal ev k \<noteq> Quiet"
      by blast
    with Quiet have "k \<noteq> n" by auto
    with k have "\<exists>k. Suc n \<le> k \<and> k < Suc n + length rest \<and> signal ev k \<noteq> Quiet"
      by (intro exI [of _ k]) auto
    from Cons.IH [OF this] Quiet show ?thesis by simp
  next
    case IOFailure
    then show ?thesis by simp
  next
    case CtrlC
    then show ?thesis by simp
  qed
qed


lemma load_rows_facts:
  assumes "load_rows ev cv d0 = (x, cv1, d1, p)"
  shows "durable d1 = durable d0 \<and> batch_size cv1 = batch_size cv \<and>
         (distinct (List.map_filter ruc (live d0)) \<longrightarrow> distinct (List.map_filter ruc (live d1))) \<and>
         (x = None \<longrightarrow> in_tx d1 \<and> \<not> in_tx d0)"
proof (cases "begin_transaction d0")
  case (Inl e)
  with assms show ?thesis by (auto simp: load_rows_def)
next
  case (Inr b)
  then have b: "b = d0\<lparr>in_tx := True\<rparr>" and ntx: "\<not> in_tx d0"
    by (auto simp: begin_transaction_def split: if_splits)
  show ?thesis
  proof (cases "open_text (encoding cv) Replace (txt_file ev)")
    case None
    with assms Inr b show ?thesis by (auto simp: load_rows_def)
  next
    case (Some f)
    let ?lines = "file_lines (snd (readline f))"
    obtain header body where rl: "readline f = (header, body)" by (cases "readline f")
    obtain y cv2 d2 q where loop: "load_loop ev ?lines 1 (cv, b, start) = (y, cv2, d2, q)"
      by (cases "load_loop ev ?lines 1 (cv, b, start)") auto
    note lf = load_loop_facts [OF loop]
    obtain cv3 d3 where fl: "flush_rest (fault ev) (cv2, d2, q) = (cv3, d3)"
      by (cases "flush_rest (fault ev) (cv2, d2, q)")
    note ff = flush_rest_facts [OF fl]
    show ?thesis
    proof (cases y)
      case None
      with assms Inr Some rl loop fl have "x = None" "cv1 = cv3" "d1 = d3"
        by (simp_all add: load_rows_def)
      with lf ff b ntx show ?thesis by simp
    next
      case (Some e)
      with assms Inr \<open>open_text (encoding cv) Replace (txt_file ev) = Some f\<close> rl loop
      have "x = Some e" "cv1 = cv2" "d1 = d2"
        by (simp_all add: load_rows_def)
      with lf b show ?thesis by simp
    qed
  qed
qed

lemma load_rows_done:
  assumes run: "load_rows ev cv d0 = (None, cv1, d1, p)"
    and f: "open_text (encoding cv) Replace (txt_file ev) = Some f"
  shows "lines_processed p = length (file_lines (snd (readline f))) \<and>
         error_count p = length (filter (\<lambda>l. parse_line l = None) (file_lines (snd (readline f)))) \<and>
         total_records cv1 = total_records cv + length (List.map_filter parse_line (file_lines (snd (readline f)))) \<and>
         ((\<forall>n. \<not> fault ev n) \<longrightarrow>
            live d1 = foldl (\<lambda>t r. insert_or_replace r t) (live d0)
                        (List.map_filter parse_line (file_lines (snd (readline f)))))"
proof -
  let ?lines = "file_lines (snd (readline f))"
  let ?b = "d0\<lparr>in_tx := True\<rparr>"
  from load_rows_facts [OF run] have ntx: "\<not> in_tx d0" by simp
  then have b: "begin_transaction d0 = Inr ?b" by (simp add: begin_transaction_def)
  obtain header body where rl: "readline f = (header, body)" by (cases "readline f")
  obtain y cv2 d2 q where loop: "load_loop ev ?lines 1 (cv, ?b, start) = (y, cv2, d2, q)"
    by (cases "load_loop ev ?lines 1 (cv, ?b, start)") auto
  obtain cv3 d3 where fl: "flush_rest (fault ev) (cv2, d2, q) = (cv3, d3)"
    by (cases "flush_rest (fault ev) (cv2, d2, q)")
  from run b f rl loop have y: "y = None"
    by (cases y) (simp_all add: load_rows_def)
  from run b f rl loop fl y have eq: "cv1 = cv3" "d1 = d3" "p = q"
    by (simp_all add: load_rows_def)
  from loop y have loop': "load_loop ev ?lines 1 (cv, ?b, start) = (None, cv2, d2, q)" by simp
  have s0: "r \<in> set (batch_records start) \<Longrightarrow> length r = 15" for r
    by (simp add: start_def)
  note ld = load_loop_done [OF loop' s0]
  have l15: "r \<in> set (batch_records q) \<Longrightarrow> length r = 15" for r
    using ld by blast
  note ff = flush_rest_facts [OF fl]
  have a: "lines_processed p = length ?lines" using ld eq by (simp add: start_def)
  have e: "error_count p = length (filter (\<lambda>l. parse_line l = None) ?lines)"
    using ld eq by (simp add: start_def)
  have t: "total_records cv1 = total_records cv + length (List.map_filter parse_line ?lines)"
    using ld ff(1) eq by (simp add: start_def)
  have c: "live d1 = foldl (\<lambda>t r. insert_or_replace r t) (live d0) (List.map_filter parse_line ?lines)"
    if nf: "\<forall>n. \<not> fault ev n"
  proof -
    from nf have nf': "\<not> fault ev m" for m by simp
    have "live d3 = foldl (\<lambda>t r. insert_or_replace r t) (live d2) (batch_records q)"
      by (rule flush_rest_clean [OF fl nf' l15])
    also have "\<dots> = foldl (\<lambda>t r. insert_or_replace r t) (live ?b) (batch_records start @ List.map_filter parse_line ?lines)"
      using ld nf by blast
    finally show ?thesis by (simp add: eq start_def)
  qed
  show ?thesis using a e t c by blast
qed


lemma open_replace_latin1:
  "open_text (detect_encoding (Some bytes)) Replace (Some bytes) = Some (translate_newlines False (map unat bytes))"
  by (simp add: detect_encoding_latin1 open_latin1)

lemma main_finished_file:
  assumes "main ev = Finished res cv' d'"
  shows "\<exists>bytes. txt_file ev = Some bytes"
  using assms by (cases "txt_file ev") (simp_all add: main_def)

lemma load_data_early:
  assumes "load_rows ev cv d0 = (Some e, cv1, d1, p)"
  shows "fst (load_data ev cv d0) = Inl e \<and> durable (snd (snd (load_data ev cv d0))) = durable d0"
  using assms load_rows_facts [OF assms]
  by (simp add: load_data_def rollback_def)

lemma load_data_late:
  assumes "load_rows ev cv d0 = (None, cv1, d1, p)"
  shows "load_data ev cv d0 =
           (show_final_results ev cv1 (commit d1) (lines_processed p) (error_count p), cv1, commit d1) \<and>
         durable (commit d1) = live d1 \<and> live (commit d1) = live d1 \<and> \<not> in_tx (commit d1)"
proof -
  from load_rows_facts [OF assms] have tx: "in_tx d1" by simp
  then have c: "durable (commit d1) = live d1" "live (commit d1) = live d1" "\<not> in_tx (commit d1)"
    by (simp_all add: commit_def)
  then have r: "rollback (commit d1) = commit d1" by (simp add: rollback_def)
  show ?thesis
    using assms c r
    by (cases "show_final_results ev cv1 (commit d1) (lines_processed p) (error_count p)")
       (simp_all add: load_data_def Let_def)
qed


lemma load_data_batch_size:
  "batch_size (fst (snd (load_data ev cv d0))) = batch_size cv"
proof -
  obtain x cv1 d1 p where r: "load_rows ev cv d0 = (x, cv1, d1, p)"
    by (cases "load_rows ev cv d0") auto
  note lf = load_rows_facts [OF r]
  show ?thesis
  proof (cases x)
    case None
    with r have r': "load_rows ev cv d0 = (None, cv1, d1, p)" by simp
    from load_data_late [OF r'] lf show ?thesis by simp
  next
    case (Some e)
    with r lf show ?thesis by (simp add: load_data_def)
  qed
qed

lemma show_final_results_Inr:
  "show_final_results ev cv d n errs = Inr s \<longleftrightarrow>
     report_signal ev = Quiet \<and> n \<noteq> 0 \<and> elapsed ev \<noteq> 0 \<and>
     s = \<lparr>lineas_totales = n, registros_insertados = total_records cv, lineas_con_errores = errs,
          registros_en_bd = length (live d),
          diferencia = (if total_records cv \<noteq> length (live d)
                        then Some (nat \<bar>int (total_records cv) - int (length (live d))\<bar>) else None)\<rparr>"
  by (cases "report_signal ev") (auto simp: show_final_results_def Let_def)

lemma load_data_returns:
  assumes run: "load_data ev cv d0 = (Inr s, cv', d')"
    and f: "open_text (encoding cv) Replace (txt_file ev) = Some f"
  shows "file_lines (snd (readline f)) \<noteq> [] \<and>
         lineas_totales s = length (file_lines (snd (readline f))) \<and>
         lineas_con_errores s = length (filter (\<lambda>l. parse_line l = None) (file_lines (snd (readline f)))) \<and>
         registros_insertados s = total_records cv + length (List.map_filter parse_line (file_lines (snd (readline f)))) \<and>
         registros_en_bd s = length (live d') \<and>
         diferencia s = (if registros_insertados s \<noteq> registros_en_bd s
                         then Some (nat \<bar>int (registros_insertados s) - int (registros_en_bd s)\<bar>) else None) \<and>
         durable d' = live d' \<and>
         (distinct (List.map_filter ruc (live d0)) \<longrightarrow> distinct (List.map_filter ruc (live d'))) \<and>
         ((\<forall>n. \<not> fault ev n) \<longrightarrow>
            live d' = foldl (\<lambda>t r. insert_or_replace r t) (live d0)
                        (List.map_filter parse_line (file_lines (snd (readline f)))))"
proof -
  let ?lines = "file_lines (snd (readline f))"
  obtain x cv1 d1 p where r: "load_rows ev cv d0 = (x, cv1, d1, p)"
    by (cases "load_rows ev cv d0") auto
  from run r have x: "x = None"
    by (cases x) (simp_all add: load_data_def)
  with r have r': "load_rows ev cv d0 = (None, cv1, d1, p)" by simp
  note late = load_data_late [OF r']
  with run have fin: "show_final_results ev cv1 (commit d1) (lines_processed p) (error_count p) = Inr s"
    and cv': "cv' = cv1" and d': "d' = commit d1"
    by auto
  note lf = load_rows_facts [OF r']
  note ld = load_rows_done [OF r' f]
  note sf = fin [unfolded show_final_results_Inr]
  have ne: "?lines \<noteq> []" using sf ld by auto
  have s: "lineas_totales s = lines_processed p" "lineas_con_errores s = error_count p"
    "registros_insertados s = total_records cv1" "registros_en_bd s = length (live (commit d1))"
    "diferencia s = (if total_records cv1 \<noteq> length (live (commit d1))
                        then Some (nat \<bar>int (total_records cv1) - int (length (live (commit d1)))\<bar>) else None)"
    using sf by simp_all
  have a1: "lineas_totales s = length ?lines" using s ld by simp
  have a2: "lineas_con_errores s = length (filter (\<lambda>l. parse_line l = None) ?lines)" using s ld by simp
  have a3: "registros_insertados s = total_records cv + length (List.map_filter parse_line ?lines)"
    using s ld by simp
  have a4: "registros_en_bd s = length (live d')" using s d' by simp
  have a5: "diferencia s = (if registros_insertados s \<noteq> registros_en_bd s
                         then Some (nat \<bar>int (registros_insertados s) - int (registros_en_bd s)\<bar>) else None)"
    using s by simp
  have a6: "durable d' = live d'" using late d' by simp
  have k: "distinct (List.map_filter ruc (live d'))" if "distinct (List.map_filter ruc (live d0))"
    using that lf late d' by simp
  have c: "live d' = foldl (\<lambda>t r. insert_or_replace r t) (live d0) (List.map_filter parse_line ?lines)"
    if "\<forall>n. \<not> fault ev n"
    using that ld late d' by simp
  show ?thesis using ne a1 a2 a3 a4 a5 a6 k c by blast
qed



lemma length_null_keyed:
  "length rows = length (filter (\<lambda>r. ruc r = None) rows) + length (List.map_filter ruc rows)"
  by (induction rows) (auto split: option.splits)

lemma null_count_insert:
  "length (filter (\<lambda>r. ruc r = None) (insert_or_replace x rows)) =
     length (filter (\<lambda>r. ruc r = None) rows) + (if ruc x = None then 1 else 0)"
proof (cases "ruc x")
  case None
  then show ?thesis by (simp add: insert_or_replace_def)
next
  case (Some k)
  have "filter (\<lambda>r. ruc r = None) (filter (\<lambda>q. ruc q \<noteq> Some k) rows) = filter (\<lambda>r. ruc r = None) rows"
    by (induction rows) auto
  with Some show ?thesis by (simp add: insert_or_replace_def)
qed

lemma keyset_insert:
  "set (List.map_filter ruc (insert_or_replace x rows)) =
     set (List.map_filter ruc rows) \<union> set (List.map_filter ruc [x])"
proof (cases "ruc x")
  case None
  then show ?thesis by (simp add: insert_or_replace_def map_filter_append)
next
  case (Some k)
  then show ?thesis
    by (auto simp: insert_or_replace_def map_filter_append map_filter_ruc_drop)
qed

lemma null_count_foldl:
  "length (filter (\<lambda>r. ruc r = None) (foldl (\<lambda>t r. insert_or_replace r t) rows recs)) =
     length (filter (\<lambda>r. ruc r = None) rows) + length (filter (\<lambda>r. ruc r = None) recs)"
  by (induction recs arbitrary: rows) (simp_all add: null_count_insert)

lemma keyset_foldl:
  "set (List.map_filter ruc (foldl (\<lambda>t r. insert_or_replace r t) rows recs)) =
     set (List.map_filter ruc rows) \<union> set (List.map_filter ruc recs)"
proof (induction recs arbitrary: rows)
  case Nil
  then show ?case by simp
next
  case (Cons x recs)
  have "List.map_filter ruc (x # recs) = List.map_filter ruc [x] @ List.map_filter ruc recs"
    using map_filter_append [of ruc "[x]" recs] by simp
  then show ?case
    by (simp only: foldl_Cons Cons.IH keyset_insert set_append Un_assoc)
qed

lemma table_size:
  "length (foldl (\<lambda>t r. insert_or_replace r t) [] recs) =
     length (filter (\<lambda>r. ruc r = None) recs) + card (set (List.map_filter ruc recs))"
proof -
  let ?t = "foldl (\<lambda>t r. insert_or_replace r t) [] recs"
  have d: "distinct (List.map_filter ruc ?t)"
    by (rule keys_foldl) simp
  have "length ?t = length (filter (\<lambda>r. ruc r = None) ?t) + length (List.map_filter ruc ?t)"
    by (rule length_null_keyed)
  also have "length (List.map_filter ruc ?t) = card (set (List.map_filter ruc ?t))"
    using d by (simp add: distinct_card)
  finally show ?thesis
    by (simp add: null_count_foldl keyset_foldl)
qed

lemma table_full_iff:
  "length (foldl (\<lambda>t r. insert_or_replace r t) [] recs) = length recs \<longleftrightarrow>
     distinct (List.map_filter ruc recs)"
proof -
  have "length recs = length (filter (\<lambda>r. ruc r = None) recs) + length (List.map_filter ruc recs)"
    by (rule length_null_keyed)
  then have "length (foldl (\<lambda>t r. insert_or_replace r t) [] recs) = length recs \<longleftrightarrow>
     card (set (List.map_filter ruc recs)) = length (List.map_filter ruc recs)"
    by (simp add: table_size)
  also have "\<dots> \<longleftrightarrow> distinct (List.map_filter ruc recs)"
    by (auto simp: distinct_card card_distinct)
  finally show ?thesis .
qed

lemma main_success:
  assumes "main ev = Finished (Inr s) cv' d'"
  shows "data_lines ev \<noteq> [] \<and>
         lineas_totales s = length (data_lines ev) \<and>
         lineas_con_errores s = length (filter (\<lambda>l. parse_line l = None) (data_lines ev)) \<and>
         registros_insertados s = length (parsed_records ev) \<and>
         registros_en_bd s = length (durable d') \<and>
         diferencia s = (if registros_insertados s \<noteq> registros_en_bd s
                         then Some (nat \<bar>int (registros_insertados s) - int (registros_en_bd s)\<bar>) else None) \<and>
         live d' = durable d' \<and>
         distinct (List.map_filter ruc (durable d')) \<and>
         ((\<forall>n. \<not> fault ev n) \<longrightarrow>
            durable d' = foldl (\<lambda>t r. insert_or_replace r t) [] (parsed_records ev))"
proof -
  from main_finished [OF assms] obtain bs d where
    run: "load_data ev \<lparr>batch_size = bs, total_records = 0, encoding = detect_encoding (txt_file ev)\<rparr>
             \<lparr>live = [], durable = [], in_tx = False, tick = 0\<rparr> = (Inr s, cv', d)"
    and d': "d' = close d"
    by blast
  from main_finished_file [OF assms] obtain bytes where b: "txt_file ev = Some bytes" by blast
  let ?f = "translate_newlines False (map unat bytes)"
  have f: "open_text (encoding \<lparr>batch_size = bs, total_records = 0, encoding = detect_encoding (txt_file ev)\<rparr>)
             Replace (txt_file ev) = Some ?f"
    by (simp add: b open_replace_latin1)
  have dl: "data_lines ev = file_lines (snd (readline ?f))"
    by (simp add: data_lines_def b open_replace_latin1)
  note r = load_data_returns [OF run f]
  have dd: "durable d' = live d" "live d' = live d"
    using r by (simp_all add: d' close_def)
  show ?thesis
    using r unfolding dd parsed_records_def dl by simp
qed


lemma replicate_unfold: "replicate (numeral k) x = x # replicate (pred_numeral k) x"
  by (simp add: numeral_eq_Suc)

lemmas parse_simps = parse_line_def strip_py_def isspace_def clean_value_def apply_replacements_def
  replacements_eq replicate_unfold

lemma parse_1A: "parse_line [0x31, 0x7C, 0x41, 0x0A] =
   Some [Some [0x31], Some [0x41], None, None, None, None, None, None, None, None, None, None, None, None, None]"
  by (simp add: parse_simps)

lemma parse_1B: "parse_line [0x31, 0x7C, 0x42, 0x0A] =
   Some [Some [0x31], Some [0x42], None, None, None, None, None, None, None, None, None, None, None, None, None]"
  by (simp add: parse_simps)

lemma parse_2B: "parse_line [0x32, 0x7C, 0x42, 0x0A] =
   Some [Some [0x32], Some [0x42], None, None, None, None, None, None, None, None, None, None, None, None, None]"
  by (simp add: parse_simps)

lemma parse_nA: "parse_line [0x7C, 0x41, 0x0A] =
   Some [None, Some [0x41], None, None, None, None, None, None, None, None, None, None, None, None, None]"
  by (simp add: parse_simps)

lemma parse_nB: "parse_line [0x7C, 0x42, 0x0A] =
   Some [None, Some [0x42], None, None, None, None, None, None, None, None, None, None, None, None, None]"
  by (simp add: parse_simps)

lemmas run_simps = main_def check_memory_def detect_encoding_latin1 open_latin1 load_data_def load_rows_def
  begin_transaction_def fresh_database start_def process_line_unfold parse_1A parse_1B parse_2B parse_nA parse_nB
  flush_rest_def insert_batch_def execute_insert_def insert_or_replace_def ruc_def commit_def rollback_def
  close_def show_final_results_def Let_def

lemma run_same_key:
  "main \<lparr>txt_file = Some [0x48, 0x0A, 0x31, 0x7C, 0x41, 0x0A, 0x31, 0x7C, 0x42, 0x0A], existing = [],
         available = 4294967296, respuesta = [0x73], fault = (\<lambda>n. False), signal = (\<lambda>n. Quiet),
         report_signal = Quiet, elapsed = 1\<rparr> =
   Finished
     (Inr \<lparr>lineas_totales = 2, registros_insertados = 2, lineas_con_errores = 0, registros_en_bd = 1,
           diferencia = Some 1\<rparr>)
     \<lparr>batch_size = 30000, total_records = 2, encoding = Latin1\<rparr>
     \<lparr>live = [[Some [0x31], Some [0x42], None, None, None, None, None, None, None, None, None, None, None, None, None]],
      durable = [[Some [0x31], Some [0x42], None, None, None, None, None, None, None, None, None, None, None, None, None]],
      in_tx = False, tick = 2\<rparr>"
  by (simp add: run_simps)

lemma run_two_keys:
  "main \<lparr>txt_file = Some [0x48, 0x0A, 0x31, 0x7C, 0x41, 0x0A, 0x32, 0x7C, 0x42, 0x0A], existing = [],
         available = 4294967296, respuesta = [0x73], fault = (\<lambda>n. False), signal = (\<lambda>n. Quiet),
         report_signal = Quiet, elapsed = 1\<rparr> =
   Finished
     (Inr \<lparr>lineas_totales = 2, registros_insertados = 2, lineas_con_errores = 0, registros_en_bd = 2,
           diferencia = None\<rparr>)
     \<lparr>batch_size = 30000, total_records = 2, encoding = Latin1\<rparr>
     \<lparr>live = [[Some [0x31], Some [0x41], None, None, None, None, None, None, None, None, None, None, None, None, None],
              [Some [0x32], Some [0x42], None, None, None, None, None, None, None, None, None, None, None, None, None]],
      durable = [[Some [0x31], Some [0x41], None, None, None, None, None, None, None, None, None, None, None, None, None],
                 [Some [0x32], Some [0x42], None, None, None, None, None, None, None, None, None, None, None, None, None]],
      in_tx = False, tick = 2\<rparr>"
  by (simp add: run_simps)


lemma data_lines_two_keys:
  "data_lines \<lparr>txt_file = Some [0x48, 0x0A, 0x31, 0x7C, 0x41, 0x0A, 0x32, 0x7C, 0x42, 0x0A], existing = [],
         available = 4294967296, respuesta = [0x73], fault = (\<lambda>n. False), signal = (\<lambda>n. Quiet),
         report_signal = Quiet, elapsed = 1\<rparr> =
   [[0x31, 0x7C, 0x41, 0x0A], [0x32, 0x7C, 0x42, 0x0A]]"
  by (simp add: data_lines_def detect_encoding_latin1 open_latin1)




text \<open>
  Claim C2, as the code has it. After every run that returns, the figure
  \<open>Registros insertados\<close> of the final report is the number of lines read minus the
  number of parse errors; rows that failed or replaced another row are not
  subtracted. The figure \<open>Registros en base de datos\<close> is \<open>count(*)\<close>, the number of rows
  in the table, and the report gives the absolute difference of the two figures exactly
  when they differ. When no insertion fails, the two figures are equal exactly when no
  two parsed records share an identifier that is not null.
\<close>

theorem final_counts:
  assumes "main ev = Finished (Inr s) cv' d'"
  shows "lineas_totales s = length (data_lines ev) \<and>
         lineas_con_errores s = length (filter (\<lambda>l. parse_line l = None) (data_lines ev)) \<and>
         registros_insertados s = lineas_totales s - lineas_con_errores s \<and>
         registros_en_bd s = length (durable d') \<and>
         diferencia s = (if registros_insertados s \<noteq> registros_en_bd s
                         then Some (nat \<bar>int (registros_insertados s) - int (registros_en_bd s)\<bar>)
                         else None) \<and>
         ((\<forall>n. \<not> fault ev n) \<longrightarrow>
            (registros_en_bd s = registros_insertados s \<longleftrightarrow>
             distinct (List.map_filter ruc (parsed_records ev))))"
proof -
  note m = main_success [OF assms]
  have c: "length (parsed_records ev) + length (filter (\<lambda>l. parse_line l = None) (data_lines ev)) = length (data_lines ev)"
    unfolding parsed_records_def by (rule length_map_filter_compl)
  have a: "registros_insertados s = lineas_totales s - lineas_con_errores s"
    using m c by simp
  have b: "registros_en_bd s = registros_insertados s \<longleftrightarrow> distinct (List.map_filter ruc (parsed_records ev))"
    if nf: "\<forall>n. \<not> fault ev n"
  proof -
    from m nf have "durable d' = foldl (\<lambda>t r. insert_or_replace r t) [] (parsed_records ev)" by blast
    with m have "registros_en_bd s = length (foldl (\<lambda>t r. insert_or_replace r t) [] (parsed_records ev))"
      and "registros_insertados s = length (parsed_records ev)" by simp_all
    then show ?thesis by (simp only: table_full_iff)
  qed
  show ?thesis using m a b by blast
qed

theorem final_counts_witness:
  "main \<lparr>txt_file = Some [0x48, 0x0A, 0x31, 0x7C, 0x41, 0x0A, 0x32, 0x7C, 0x42, 0x0A], existing = [],
         available = 4294967296, respuesta = [0x73], fault = (\<lambda>n. False), signal = (\<lambda>n. Quiet),
         report_signal = Quiet, elapsed = 1\<rparr> =
   Finished
     (Inr \<lparr>lineas_totales = 2, registros_insertados = 2, lineas_con_errores = 0, registros_en_bd = 2,
           diferencia = None\<rparr>)
     \<lparr>batch_size = 30000, total_records = 2, encoding = Latin1\<rparr>
     \<lparr>live = [[Some [0x31], Some [0x41], None, None, None, None, None, None, None, None, None, None, None, None, None],
              [Some [0x32], Some [0x42], None, None, None, None, None, None, None, None, None, None, None, None, None]],
      durable = [[Some [0x31], Some [0x41], None, None, None, None, None, None, None, None, None, None, None, None, None],
                 [Some [0x32], Some [0x42], None, None, None, None, None, None, None, None, None, None, None, None, None]],
      in_tx = False, tick = 2\<rparr> \<and>
   parsed_records \<lparr>txt_file = Some [0x48, 0x0A, 0x31, 0x7C, 0x41, 0x0A, 0x32, 0x7C, 0x42, 0x0A], existing = [],
         available = 4294967296, respuesta = [0x73], fault = (\<lambda>n. False), signal = (\<lambda>n. Quiet),
         report_signal = Quiet, elapsed = 1\<rparr> =
     [[Some [0x31], Some [0x41], None, None, None, None, None, None, None, None, None, None, None, None, None],
      [Some [0x32], Some [0x42], None, None, None, None, None, None, None, None, None, None, None, None, None]] \<and>
   distinct (List.map_filter ruc
     [[Some [0x31], Some [0x41], None, None, None, None, None, None, None, None, None, None, None, None, None],
      [Some [0x32], Some [0x42], None, None, None, None, None, None, None, None, None, None, None, None, None]])"
  using final_counts [OF run_two_keys]
  by (simp add: run_two_keys parsed_records_def data_lines_two_keys parse_1A parse_2B ruc_def)

text \<open>
  Two lines with the identifier \<open>1\<close>: two lines read, no parse error, no failed row, two
  records reported as inserted, one row counted, and the difference of 1 reported.
\<close>

theorem final_counts_counterexample:
  "main \<lparr>txt_file = Some [0x48, 0x0A, 0x31, 0x7C, 0x41, 0x0A, 0x31, 0x7C, 0x42, 0x0A], existing = [],
         available = 4294967296, respuesta = [0x73], fault = (\<lambda>n. False), signal = (\<lambda>n. Quiet),
         report_signal = Quiet, elapsed = 1\<rparr> =
   Finished
     (Inr \<lparr>lineas_totales = 2, registros_insertados = 2, lineas_con_errores = 0, registros_en_bd = 1,
           diferencia = Some 1\<rparr>)
     \<lparr>batch_size = 30000, total_records = 2, encoding = Latin1\<rparr>
     \<lparr>live = [[Some [0x31], Some [0x42], None, None, None, None, None, None, None, None, None, None, None, None, None]],
      durable = [[Some [0x31], Some [0x42], None, None, None, None, None, None, None, None, None, None, None, None, None]],
      in_tx = False, tick = 2\<rparr>"
  by (rule run_same_key)



lemma load_rows_signal:
  assumes ntx: "\<not> in_tx d0"
    and f: "open_text (encoding cv) Replace (txt_file ev) = Some f"
    and k: "\<exists>k. 1 \<le> k \<and> k \<le> length (file_lines (snd (readline f))) \<and> signal ev k \<noteq> Quiet"
  shows "fst (load_rows ev cv d0) \<noteq> None"
proof -
  let ?lines = "file_lines (snd (readline f))"
  let ?b = "d0\<lparr>in_tx := True\<rparr>"
  have b: "begin_transaction d0 = Inr ?b" using ntx by (simp add: begin_transaction_def)
  obtain header body where rl: "readline f = (header, body)" by (cases "readline f")
  obtain y cv2 d2 q where loop: "load_loop ev ?lines 1 (cv, ?b, start) = (y, cv2, d2, q)"
    by (cases "load_loop ev ?lines 1 (cv, ?b, start)") auto
  from k have "\<exists>k. 1 \<le> k \<and> k < 1 + length ?lines \<and> signal ev k \<noteq> Quiet" by auto
  from load_loop_raises [OF this, of "(cv, ?b, start)"] loop obtain e where y: "y = Some e" by auto
  with b f rl loop show ?thesis by (simp add: load_rows_def)
qed

text \<open>
  Claim C8, as the code has it. Nothing is committed while the lines are processed.
  When the part of \<open>load_data\<close> that comes before its commit raises (the transaction
  cannot begin, the file cannot be opened, a line cannot be read, the user interrupts),
  \<open>load_data\<close> raises with the same exception, and once the connection is closed the
  database file holds what it held before the load. In \<open>main\<close>, where the table was just
  created, a read error or an interrupt at any data line ends the run with an error
  and with no row in the table.
\<close>

theorem load_all_or_nothing:
  "durable (fst (snd (snd (load_loop ev lines n (cv, d, p))))) = durable d \<and>
   (fst (load_rows ev cv d0) = Some e \<longrightarrow>
      fst (load_data ev cv d0) = Inl e \<and>
      durable (close (snd (snd (load_data ev cv d0)))) = durable d0 \<and>
      live (close (snd (snd (load_data ev cv d0)))) = durable d0) \<and>
   (main ev = Finished res cv' d' \<and>
    (\<exists>k. 1 \<le> k \<and> k \<le> length (data_lines ev) \<and> signal ev k \<noteq> Quiet) \<longrightarrow>
      (\<exists>x. res = Inl x) \<and> live d' = [] \<and> durable d' = [])"
proof -
  have a: "durable (fst (snd (snd (load_loop ev lines n (cv, d, p))))) = durable d"
  proof -
    obtain x cv1 d1 p1 where l: "load_loop ev lines n (cv, d, p) = (x, cv1, d1, p1)"
      by (cases "load_loop ev lines n (cv, d, p)") auto
    from load_loop_facts [OF l] show ?thesis by (simp add: l)
  qed
  have b: "fst (load_data ev cv d0) = Inl e \<and>
      durable (close (snd (snd (load_data ev cv d0)))) = durable d0 \<and>
      live (close (snd (snd (load_data ev cv d0)))) = durable d0"
    if h: "fst (load_rows ev cv d0) = Some e"
  proof -
    obtain cv1 d1 p1 where r: "load_rows ev cv d0 = (Some e, cv1, d1, p1)"
      using h by (cases "load_rows ev cv d0") auto
    from load_data_early [OF r] show ?thesis by (simp add: close_def)
  qed
  have c: "(\<exists>x. res = Inl x) \<and> live d' = [] \<and> durable d' = []"
    if m: "main ev = Finished res cv' d'"
      and k: "\<exists>k. 1 \<le> k \<and> k \<le> length (data_lines ev) \<and> signal ev k \<noteq> Quiet"
  proof -
    from main_finished [OF m] obtain bs d1 where
      run: "load_data ev \<lparr>batch_size = bs, total_records = 0, encoding = detect_encoding (txt_file ev)\<rparr>
             \<lparr>live = [], durable = [], in_tx = False, tick = 0\<rparr> = (res, cv', d1)"
      and d': "d' = close d1"
      by blast
    let ?cv = "\<lparr>batch_size = bs, total_records = 0, encoding = detect_encoding (txt_file ev)\<rparr>"
    let ?d0 = "\<lparr>live = [], durable = [], in_tx = False, tick = 0\<rparr>"
    from main_finished_file [OF m] obtain bytes where bt: "txt_file ev = Some bytes" by blast
    let ?f = "translate_newlines False (map unat bytes)"
    have f: "open_text (encoding ?cv) Replace (txt_file ev) = Some ?f"
      by (simp add: bt open_replace_latin1)
    have dl: "data_lines ev = file_lines (snd (readline ?f))"
      by (simp add: data_lines_def bt open_replace_latin1)
    have "fst (load_rows ev ?cv ?d0) \<noteq> None"
      by (rule load_rows_signal [OF _ f]) (use k dl in simp_all)
    then obtain x cv1 d2 p1 where r: "load_rows ev ?cv ?d0 = (Some x, cv1, d2, p1)"
      by (cases "load_rows ev ?cv ?d0") auto
    from load_data_early [OF r] run d' show ?thesis by (simp add: close_def)
  qed
  show ?thesis using a b c by blast
qed

theorem load_all_or_nothing_witness:
  "fst (load_rows
     \<lparr>txt_file = Some [0x48, 0x0A, 0x31, 0x7C, 0x41, 0x0A, 0x32, 0x7C, 0x42, 0x0A], existing = [],
      available = 4294967296, respuesta = [0x73], fault = (\<lambda>n. False),
      signal = (\<lambda>n. if n = 2 then CtrlC else Quiet),
      report_signal = Quiet, elapsed = 1\<rparr>
     \<lparr>batch_size = 1, total_records = 0, encoding = Latin1\<rparr>
     \<lparr>live = [], durable = [], in_tx = False, tick = 0\<rparr>) = Some KeyboardInterrupt \<and>
   load_data
     \<lparr>txt_file = Some [0x48, 0x0A, 0x31, 0x7C, 0x41, 0x0A, 0x32, 0x7C, 0x42, 0x0A], existing = [],
      available = 4294967296, respuesta = [0x73], fault = (\<lambda>n. False),
      signal = (\<lambda>n. if n = 2 then CtrlC else Quiet),
      report_signal = Quiet, elapsed = 1\<rparr>
     \<lparr>batch_size = 1, total_records = 0, encoding = Latin1\<rparr>
     \<lparr>live = [], durable = [], in_tx = False, tick = 0\<rparr> =
   (Inl KeyboardInterrupt,
    \<lparr>batch_size = 1, total_records = 1, encoding = Latin1\<rparr>,
    \<lparr>live = [[Some [0x31], Some [0x41], None, None, None, None, None, None, None, None, None, None, None, None, None]],
     durable = [], in_tx = True, tick = 1\<rparr>) \<and>
   close \<lparr>live = [[Some [0x31], Some [0x41], None, None, None, None, None, None, None, None, None, None, None, None, None]],
          durable = [], in_tx = True, tick = 1\<rparr> =
     \<lparr>live = [], durable = [], in_tx = False, tick = 1\<rparr> \<and>
   main
     \<lparr>txt_file = Some [0x48, 0x0A, 0x31, 0x7C, 0x41, 0x0A, 0x32, 0x7C, 0x42, 0x0A], existing = [],
      available = 4294967296, respuesta = [0x73], fault = (\<lambda>n. False),
      signal = (\<lambda>n. if n = 2 then CtrlC else Quiet),
      report_signal = Quiet, elapsed = 1\<rparr> =
   Finished (Inl KeyboardInterrupt)
     \<lparr>batch_size = 30000, total_records = 0, encoding = Latin1\<rparr>
     \<lparr>live = [], durable = [], in_tx = False, tick = 0\<rparr> \<and>
   data_lines
     \<lparr>txt_file = Some [0x48, 0x0A, 0x31, 0x7C, 0x41, 0x0A, 0x32, 0x7C, 0x42, 0x0A], existing = [],
      available = 4294967296, respuesta = [0x73], fault = (\<lambda>n. False),
      signal = (\<lambda>n. if n = 2 then CtrlC else Quiet),
      report_signal = Quiet, elapsed = 1\<rparr> =
     [[0x31, 0x7C, 0x41, 0x0A], [0x32, 0x7C, 0x42, 0x0A]]"
proof -
  let ?ev = "\<lparr>txt_file = Some [0x48, 0x0A, 0x31, 0x7C, 0x41, 0x0A, 0x32, 0x7C, 0x42, 0x0A], existing = [],
      available = 4294967296, respuesta = [0x73], fault = (\<lambda>n. False),
      signal = (\<lambda>n. if n = 2 then CtrlC else Quiet),
      report_signal = Quiet, elapsed = 1\<rparr>"
  let ?cv = "\<lparr>batch_size = 1, total_records = 0, encoding = Latin1\<rparr>"
  let ?d0 = "\<lparr>live = [], durable = [], in_tx = False, tick = 0\<rparr>"
  have r: "fst (load_rows ?ev ?cv ?d0) = Some KeyboardInterrupt"
    by (simp add: run_simps)
  have l: "load_data ?ev ?cv ?d0 =
   (Inl KeyboardInterrupt,
    \<lparr>batch_size = 1, total_records = 1, encoding = Latin1\<rparr>,
    \<lparr>live = [[Some [0x31], Some [0x41], None, None, None, None, None, None, None, None, None, None, None, None, None]],
     durable = [], in_tx = True, tick = 1\<rparr>)"
    by (simp add: run_simps)
  have m: "main ?ev = Finished (Inl KeyboardInterrupt)
     \<lparr>batch_size = 30000, total_records = 0, encoding = Latin1\<rparr>
     \<lparr>live = [], durable = [], in_tx = False, tick = 0\<rparr>"
    by (simp add: run_simps)
  have dl: "data_lines ?ev = [[0x31, 0x7C, 0x41, 0x0A], [0x32, 0x7C, 0x42, 0x0A]]"
    by (simp add: data_lines_def detect_encoding_latin1 open_latin1)
  have k: "\<exists>k. 1 \<le> k \<and> k \<le> length (data_lines ?ev) \<and> signal ?ev k \<noteq> Quiet"
    unfolding dl by (intro exI [of _ 2]) simp
  note t = load_all_or_nothing [where ev = ?ev and cv = ?cv and ?d0.0 = ?d0 and e = KeyboardInterrupt
      and res = "Inl KeyboardInterrupt" and cv' = "\<lparr>batch_size = 30000, total_records = 0, encoding = Latin1\<rparr>"
      and d' = "\<lparr>live = [], durable = [], in_tx = False, tick = 0\<rparr>"]
  from t r have c: "durable (close (snd (snd (load_data ?ev ?cv ?d0)))) = durable ?d0 \<and>
      live (close (snd (snd (load_data ?ev ?cv ?d0)))) = durable ?d0"
    by blast
  from t m k have "live \<lparr>live = [], durable = [], in_tx = False, tick = 0\<rparr> = ([] :: row list)"
    by blast
  with r l m dl c show ?thesis by (simp add: close_def)
qed

text \<open>
  A file with one data line. The user interrupts as the final report starts, or the
  clock has not advanced and the report divides by zero: \<open>load_data\<close> raises, and the
  row is in the table, committed before the report.
\<close>

theorem load_all_or_nothing_counterexample:
  "main \<lparr>txt_file = Some [0x48, 0x0A, 0x31, 0x7C, 0x41, 0x0A], existing = [],
         available = 4294967296, respuesta = [0x73], fault = (\<lambda>n. False), signal = (\<lambda>n. Quiet),
         report_signal = CtrlC, elapsed = 1\<rparr> =
   Finished (Inl KeyboardInterrupt)
     \<lparr>batch_size = 30000, total_records = 1, encoding = Latin1\<rparr>
     \<lparr>live = [[Some [0x31], Some [0x41], None, None, None, None, None, None, None, None, None, None, None, None, None]],
      durable = [[Some [0x31], Some [0x41], None, None, None, None, None, None, None, None, None, None, None, None, None]],
      in_tx = False, tick = 1\<rparr> \<and>
   main \<lparr>txt_file = Some [0x48, 0x0A, 0x31, 0x7C, 0x41, 0x0A], existing = [],
         available = 4294967296, respuesta = [0x73], fault = (\<lambda>n. False), signal = (\<lambda>n. Quiet),
         report_signal = Quiet, elapsed = 0\<rparr> =
   Finished (Inl ZeroDivisionError)
     \<lparr>batch_size = 30000, total_records = 1, encoding = Latin1\<rparr>
     \<lparr>live = [[Some [0x31], Some [0x41], None, None, None, None, None, None, None, None, None, None, None, None, None]],
      durable = [[Some [0x31], Some [0x41], None, None, None, None, None, None, None, None, None, None, None, None, None]],
      in_tx = False, tick = 1\<rparr>"
  by (simp add: run_simps)

text \<open>
  Claim C9. When the available memory is below 1 GB, \<open>check_memory\<close> sets the batch size
  to 15000, and the load that \<open>main\<close> then runs is the load with batch size 15000: its
  result, its converter and its database are those of \<open>load_data\<close> called with that
  batch size, and the batch size is still 15000 when it ends.
\<close>

theorem low_memory_batch_size:
  assumes "main ev = Finished res cv' d'" and "of_nat (available ev) / 1024 ^ 3 < (1::rat)"
  shows "batch_size (snd (check_memory (available ev) c)) = 15000 \<and>
         batch_size cv' = 15000 \<and>
         fst (load_data ev \<lparr>batch_size = 15000, total_records = 0, encoding = detect_encoding (txt_file ev)\<rparr>
                (create_table (connect_db (existing ev)))) = res \<and>
         fst (snd (load_data ev \<lparr>batch_size = 15000, total_records = 0, encoding = detect_encoding (txt_file ev)\<rparr>
                (create_table (connect_db (existing ev))))) = cv' \<and>
         close (snd (snd (load_data ev \<lparr>batch_size = 15000, total_records = 0, encoding = detect_encoding (txt_file ev)\<rparr>
                (create_table (connect_db (existing ev)))))) = d'"
proof -
  let ?run = "load_data ev \<lparr>batch_size = 15000, total_records = 0, encoding = detect_encoding (txt_file ev)\<rparr>
                (create_table (connect_db (existing ev)))"
  have a: "batch_size (snd (check_memory (available ev) c)) = 15000"
    using assms(2) by (simp add: check_memory_def Let_def)
  from assms have m: "Finished (fst ?run) (fst (snd ?run)) (close (snd (snd ?run))) = Finished res cv' d'"
    by (auto simp: main_def check_memory_def Let_def split: if_splits prod.splits)
  then have r: "fst ?run = res" "fst (snd ?run) = cv'" "close (snd (snd ?run)) = d'" by simp_all
  have "batch_size (fst (snd ?run)) = 15000"
    by (simp add: load_data_batch_size)
  with r a show ?thesis by simp
qed

theorem low_memory_batch_size_witness:
  "of_nat (available
      \<lparr>txt_file = Some [0x48, 0x0A, 0x31, 0x7C, 0x41, 0x0A, 0x32, 0x7C, 0x42, 0x0A], existing = [],
       available = 805306368, respuesta = [0x73], fault = (\<lambda>n. False), signal = (\<lambda>n. Quiet),
         report_signal = Quiet, elapsed = 1\<rparr>) / 1024 ^ 3 < (1::rat) \<and>
   main \<lparr>txt_file = Some [0x48, 0x0A, 0x31, 0x7C, 0x41, 0x0A, 0x32, 0x7C, 0x42, 0x0A], existing = [],
         available = 805306368, respuesta = [0x73], fault = (\<lambda>n. False), signal = (\<lambda>n. Quiet),
         report_signal = Quiet, elapsed = 1\<rparr> =
   Finished
     (Inr \<lparr>lineas_totales = 2, registros_insertados = 2, lineas_con_errores = 0, registros_en_bd = 2,
           diferencia = None\<rparr>)
     \<lparr>batch_size = 15000, total_records = 2, encoding = Latin1\<rparr>
     \<lparr>live = [[Some [0x31], Some [0x41], None, None, None, None, None, None, None, None, None, None, None, None, None],
              [Some [0x32], Some [0x42], None, None, None, None, None, None, None, None, None, None, None, None, None]],
      durable = [[Some [0x31], Some [0x41], None, None, None, None, None, None, None, None, None, None, None, None, None],
                 [Some [0x32], Some [0x42], None, None, None, None, None, None, None, None, None, None, None, None, None]],
      in_tx = False, tick = 2\<rparr> \<and>
   batch_size (snd (check_memory 805306368 \<lparr>batch_size = 30000, total_records = 0, encoding = Latin1\<rparr>)) = 15000"
proof -
  let ?ev = "\<lparr>txt_file = Some [0x48, 0x0A, 0x31, 0x7C, 0x41, 0x0A, 0x32, 0x7C, 0x42, 0x0A], existing = [],
         available = 805306368, respuesta = [0x73], fault = (\<lambda>n. False), signal = (\<lambda>n. Quiet),
         report_signal = Quiet, elapsed = 1\<rparr>"
  have h: "of_nat (available ?ev) / 1024 ^ 3 < (1::rat)" by simp
  have m: "main ?ev =
   Finished
     (Inr \<lparr>lineas_totales = 2, registros_insertados = 2, lineas_con_errores = 0, registros_en_bd = 2,
           diferencia = None\<rparr>)
     \<lparr>batch_size = 15000, total_records = 2, encoding = Latin1\<rparr>
     \<lparr>live = [[Some [0x31], Some [0x41], None, None, None, None, None, None, None, None, None, None, None, None, None],
              [Some [0x32], Some [0x42], None, None, None, None, None, None, None, None, None, None, None, None, None]],
      durable = [[Some [0x31], Some [0x41], None, None, None, None, None, None, None, None, None, None, None, None, None],
                 [Some [0x32], Some [0x42], None, None, None, None, None, None, None, None, None, None, None, None, None]],
      in_tx = False, tick = 2\<rparr>"
    by (simp add: run_simps)
  from low_memory_batch_size [OF m h, of "\<lparr>batch_size = 30000, total_records = 0, encoding = Latin1\<rparr>"]
  have "batch_size (snd (check_memory 805306368 \<lparr>batch_size = 30000, total_records = 0, encoding = Latin1\<rparr>)) = 15000"
    by simp
  with h m show ?thesis by simp
qed

text \<open>
  Claim C10. \<open>detect_encoding\<close> returns latin-1 for every file, present or not. The
  loop over the candidates ends at latin-1 when one of the first five lines of the
  latin-1 text holds the delimiter, and otherwise no candidate is accepted and the
  default is taken.
\<close>

theorem detect_encoding_always_latin1:
  "detect_encoding src = Latin1 \<and>
   try_encodings (Some bytes) [Latin1, Iso8859_1, Cp1252, Utf8] =
     (if sample_lines 5 (translate_newlines False (map unat bytes)) then Some Latin1 else None) \<and>
   try_encodings None [Latin1, Iso8859_1, Cp1252, Utf8] = None"
proof -
  have "try_encodings (Some bytes) [Latin1, Iso8859_1, Cp1252, Utf8] =
     (if sample_lines 5 (translate_newlines False (map unat bytes)) then Some Latin1 else None)"
  proof (cases "sample_lines 5 (translate_newlines False (map unat bytes))")
    case True
    then show ?thesis by (simp add: open_latin1)
  next
    case False
    then have "try_encodings (Some bytes) [Latin1, Iso8859_1, Cp1252, Utf8] = None"
      by (rule try_encodings_missed)
    with False show ?thesis by simp
  qed
  then show ?thesis
    by (simp only: detect_encoding_latin1 try_encodings_absent simp_thms)
qed

end
